theory Spec2Isabelle
  imports Complex_Main "HOL-Library.Sublist"
begin

section \<open>The Stockfish engine session of src/engine/stockfish.ts\<close>

text \<open>
  The class \<open>StockfishEngine\<close> drives a Web Worker that speaks the UCI text protocol.
  Its methods and the callbacks they register (a timer, an error listener, two kinds of
  message listeners) all run to completion on one event loop, so the class is modelled as a
  state machine: a record of the object's fields together with the workers, timers,
  listeners and promises it has created, and one step function per task of the event loop.

  Conventions of the embedding:
  \<^item> a JavaScript string is a \<open>string\<close>: its characters are the code units below 256
    (UCI traffic is ASCII);
  \<^item> a finite JavaScript \<open>number\<close> handed to a setter is a \<open>real\<close>; \<open>NaN\<close> and the
    infinities are outside the model;
  \<^item> the search limits \<open>depth\<close> and \<open>movetimeMs\<close> are natural numbers;
  \<^item> \<open>undefined\<close> is \<open>None\<close>;
  \<^item> \<open>new Worker(url)\<close> either returns a worker or throws; the environment of the
    session says for which script URLs it throws (\<open>throwingScripts\<close>);
  \<^item> a terminated worker delivers no further message or error event;
  \<^item> a continuation waiting on a promise runs as soon as the promise is resolved.
\<close>

subsection \<open>Strings\<close>

text \<open>
  The characters matched by \<open>\s\<close> and removed by \<open>trim\<close>, among the code units below
  256: space, tab, line feed, vertical tab, form feed, carriage return and the no-break
  space U+00A0.
\<close>

definition isSpace :: "char \<Rightarrow> bool" where
  "isSpace c =
     (c \<in> set [CHR '' '', CHR 0x09, CHR 0x0A, CHR 0x0B, CHR 0x0C, CHR 0x0D, CHR 0xA0])"

definition trim :: "string \<Rightarrow> string" where
  "trim s = rev (dropWhile isSpace (rev (dropWhile isSpace s)))"

text \<open>
  \<open>s.split(/\s+/)\<close>: the pieces of \<open>s\<close> between maximal runs of whitespace. A
  string that begins (ends) with whitespace yields an empty first (last) piece, and the
  empty string yields one empty piece, as in JavaScript.
\<close>

function split :: "string \<Rightarrow> string list" where
  "split s =
     (let piece = takeWhile (\<lambda>c. \<not> isSpace c) s;
          rest = dropWhile (\<lambda>c. \<not> isSpace c) s
      in if rest = [] then [piece] else piece # split (dropWhile isSpace rest))"
  by pat_completeness auto
termination
proof (relation "measure length")
  show "wf (measure length)" by simp
next
  fix s :: string and piece rest
  assume r: "rest = dropWhile (\<lambda>c. \<not> isSpace c) s" and ne: "rest \<noteq> []"
  from ne obtain c cs where rc: "rest = c # cs" by (cases rest) auto
  have "length (dropWhile isSpace rest) \<le> length rest"
    by (rule length_dropWhile_le)
  moreover have "isSpace c"
  proof -
    have "dropWhile (\<lambda>c. \<not> isSpace c) s \<noteq> []" using r ne by simp
    from hd_dropWhile [OF this] have "isSpace (hd rest)" unfolding r by simp
    thus ?thesis unfolding rc by simp
  qed
  hence "dropWhile isSpace rest = dropWhile isSpace cs" using rc by simp
  hence "length (dropWhile isSpace rest) < length rest"
    using rc length_dropWhile_le [of isSpace cs] by simp
  moreover have "length rest \<le> length s" using r by (simp add: length_dropWhile_le)
  ultimately show "(dropWhile isSpace rest, s) \<in> measure length" by simp
qed

declare split.simps [simp del]

text \<open>\<open>text.startsWith(p)\<close> and \<open>text.includes(p)\<close>.\<close>

definition startsWith :: "string \<Rightarrow> string \<Rightarrow> bool" where
  "startsWith s p = prefix p s"

definition includes_str :: "string \<Rightarrow> string \<Rightarrow> bool" where
  "includes_str s p = sublist p s"

text \<open>\<open>parts.indexOf(x)\<close>: the first index holding \<open>x\<close>, or \<open>-1\<close>.\<close>

fun indexOf :: "'a list \<Rightarrow> 'a \<Rightarrow> int" where
  "indexOf [] x = -1"
| "indexOf (y # ys) x = (if y = x then 0 else (let i = indexOf ys x in if i = -1 then -1 else i + 1))"

text \<open>\<open>parts[i]\<close>: \<open>undefined\<close> outside the array.\<close>

definition elemAt :: "'a list \<Rightarrow> int \<Rightarrow> 'a option" where
  "elemAt xs i = (if 0 \<le> i \<and> i < int (length xs) then Some (xs ! nat i) else None)"

subsection \<open>The result of a search\<close>

text \<open>
  \<open>BestMove\<close>. The declared type of \<open>move\<close> is \<open>string\<close>, but the code stores
  \<open>parts[1]\<close> unchecked, so the field can hold \<open>undefined\<close>.
\<close>

record BestMove =
  move :: "string option"
  ponder :: "string option"

text \<open>
  The body of \<open>onMessage\<close> for a text that starts with \<open>bestmove\<close>: the object passed to
  \<open>resolve\<close>. The condition \<open>parts[ponderIdx + 1]\<close> is a truthiness test: the entry must
  exist and be a non-empty string.
\<close>

definition parseBestMove :: "string \<Rightarrow> BestMove" where
  "parseBestMove text =
     (let parts = split (trim text);
          result = \<lparr> move = elemAt parts 1, ponder = None \<rparr>;
          ponderIdx = indexOf parts ''ponder''
      in if ponderIdx \<noteq> -1 \<and> elemAt parts (ponderIdx + 1) \<noteq> None \<and> elemAt parts (ponderIdx + 1) \<noteq> Some []
         then result \<lparr> ponder := elemAt parts (ponderIdx + 1) \<rparr>
         else result)"


subsection \<open>Commands posted to a worker\<close>

text \<open>
  Every \<open>postMessage\<close> of the class sends one of these template strings; the
  interpolated values are kept as arguments and \<open>render\<close> gives the text on the wire.
\<close>

datatype optvalue = NumValue int | StrValue string

datatype command =
    Uci
  | UciNewGame
  | IsReady
  | SetOption string optvalue
  | PositionFen string
  | GoDepth nat
  | GoMovetime nat

function showNat :: "nat \<Rightarrow> string" where
  "showNat n = (if n < 10 then [''0123456789'' ! n] else showNat (n div 10) @ [''0123456789'' ! (n mod 10)])"
  by pat_completeness auto
termination
  by (relation "measure id") auto

declare showNat.simps [simp del]

definition showInt :: "int \<Rightarrow> string" where
  "showInt i = (if i < 0 then CHR ''-'' # showNat (nat (- i)) else showNat (nat i))"

fun showValue :: "optvalue \<Rightarrow> string" where
  "showValue (NumValue i) = showInt i"
| "showValue (StrValue v) = v"

fun render :: "command \<Rightarrow> string" where
  "render Uci = ''uci''"
| "render UciNewGame = ''ucinewgame''"
| "render IsReady = ''isready''"
| "render (SetOption name v) = ''setoption name '' @ name @ '' value '' @ showValue v"
| "render (PositionFen fen) = ''position fen '' @ fen"
| "render (GoDepth d) = ''go depth '' @ showNat d"
| "render (GoMovetime t) = ''go movetime '' @ showNat t"

subsection \<open>Workers, promises and searches\<close>

text \<open>
  A message listener is either the \<open>handleMessage\<close> closure of a call of
  \<open>initializeWorker\<close> or the \<open>onMessage\<close> closure of a call of \<open>getBestMove\<close>.
\<close>

datatype listener = HandleMessage nat | OnMessage nat

text \<open>
  One call of \<open>initializeWorker\<close>: the worker it creates and the closure around it. The
  call's number is the worker's identity. \<open>singleThreaded\<close> is the parameter captured by
  the timer callback and by \<open>handleError\<close>; \<open>resolveInit\<close> is the promise whose
  \<open>resolve\<close> the closure holds; \<open>timeoutPending\<close> says that the timer set by
  \<open>setTimeout\<close> has neither fired nor been cleared.
\<close>

record launch =
  scriptUrl :: string
  singleThreaded :: bool
  resolveInit :: nat
  terminated :: bool
  timeoutPending :: bool
  messageListeners :: "listener list"
  errorListeners :: "nat list"
  posted :: "command list"

text \<open>
  The two places where \<open>getBestMove\<close> awaits the initialization promise, with the
  number of the search that continues there.
\<close>

datatype continuation = AfterInitialize nat | AfterPendingInit nat

text \<open>
  The errors of the class: the \<open>Error\<close> it throws itself, the \<open>TypeError\<close> of
  \<open>this.worker!\<close> on \<open>null\<close>, and the exception thrown by \<open>new Worker\<close>.
\<close>

datatype error = Error string | TypeError | ConstructorError

text \<open>
  A promise made by \<open>initialize\<close>: how often its \<open>resolve\<close> has been called, the
  exception that rejected it, and the continuations waiting for it. The executor is
  given \<open>resolve\<close> only; the promise is rejected when the executor throws, and in no
  other way. A promise is fulfilled when it is not rejected and \<open>resolve\<close> has been
  called.
\<close>

record promise =
  resolveCalls :: nat
  rejected :: "error option"
  reactions :: "continuation list"

text \<open>
  A call of \<open>getBestMove\<close> and the promise it has returned: the call is suspended at an
  \<open>await\<close>; or it has sent its commands and its listener waits for the terminating
  message, the promise still pending; or the promise is fulfilled with a result; or it
  is rejected with an exception.
\<close>

datatype search_status = Suspended | Searching | Resolved BestMove | Rejected error

record options =
  movetimeMs :: "nat option"
  depth :: "nat option"

record search =
  fen :: string
  opts :: "options option"
  status :: search_status

text \<open>
  The fields of \<open>StockfishEngine\<close> (the first five), the environment
  (\<open>navigator.hardwareConcurrency\<close> and the script URLs for which \<open>new Worker\<close>
  throws), and the objects created so far.
\<close>

record state =
  worker :: "nat option"
  isReady :: bool
  pendingInit :: "nat option"
  currentSkillLevel :: int
  isSingleThreaded :: bool
  hardwareConcurrency :: "nat option"
  throwingScripts :: "string list"
  workers :: "launch list"
  initPromises :: "promise list"
  searches :: "search list"

text \<open>
  \<open>new StockfishEngine()\<close> in an environment where every worker can be constructed,
  and in an environment where \<open>new Worker\<close> throws for the scripts \<open>fs\<close>.
\<close>

definition newEngine :: "nat option \<Rightarrow> state" where
  "newEngine hc =
     \<lparr> worker = None, isReady = False, pendingInit = None, currentSkillLevel = 20,
       isSingleThreaded = False, hardwareConcurrency = hc, throwingScripts = [],
       workers = [], initPromises = [], searches = [] \<rparr>"

definition newEngineIn :: "string list \<Rightarrow> nat option \<Rightarrow> state" where
  "newEngineIn fs hc = (newEngine hc) \<lparr> throwingScripts := fs \<rparr>"

definition updWorker :: "nat \<Rightarrow> (launch \<Rightarrow> launch) \<Rightarrow> state \<Rightarrow> state" where
  "updWorker w f s = s \<lparr> workers := (workers s)[w := f (workers s ! w)] \<rparr>"

definition postMessage :: "nat \<Rightarrow> command \<Rightarrow> state \<Rightarrow> state" where
  "postMessage w c = updWorker w (\<lambda>l. l \<lparr> posted := posted l @ [c] \<rparr>)"

definition terminate :: "nat \<Rightarrow> state \<Rightarrow> state" where
  "terminate w = updWorker w (\<lambda>l. l \<lparr> terminated := True \<rparr>)"

definition setStatus :: "nat \<Rightarrow> search_status \<Rightarrow> state \<Rightarrow> state" where
  "setStatus sid st s = s \<lparr> searches := (searches s)[sid := (searches s ! sid) \<lparr> status := st \<rparr>] \<rparr>"

subsection \<open>initialize\<close>

definition primaryUrl :: string where
  "primaryUrl = ''/stockfish/stockfish-nnue-16.js''"

definition fallbackUrl :: string where
  "fallbackUrl = ''/stockfish/stockfish-nnue-16-single.js''"

text \<open>
  \<open>initializeWorker(scriptUrl, singleThreaded)\<close> inside the executor of promise \<open>p\<close>,
  in three parts: the release of the current worker (lines 20 to 23), the call of
  \<open>new Worker\<close>, which may throw, and the statements that follow when it has returned
  (lines 24 to 66). The result is the exception, if any, and the state it leaves.
\<close>

definition releaseWorker :: "state \<Rightarrow> state" where
  "releaseWorker s =
     (case worker s of
        Some w \<Rightarrow> (terminate w s) \<lparr> worker := None \<rparr>
      | None \<Rightarrow> s)"

definition constructorThrows :: "string \<Rightarrow> state \<Rightarrow> bool" where
  "constructorThrows url s = (url \<in> set (throwingScripts s))"

definition startWorker :: "nat \<Rightarrow> string \<Rightarrow> bool \<Rightarrow> state \<Rightarrow> state" where
  "startWorker p url single s1 =
     (let n = length (workers s1);
          cores = (case hardwareConcurrency s1 of
                     Some c \<Rightarrow> if c \<noteq> 0 then c else 2
                   | None \<Rightarrow> 2);
          threads = (if single then 1 else max 1 (min cores 8));
          l = \<lparr> scriptUrl = url, singleThreaded = single, resolveInit = p,
                terminated = False, timeoutPending = True,
                messageListeners = [HandleMessage n], errorListeners = [n],
                posted = [Uci, UciNewGame,
                          SetOption ''Threads'' (NumValue (int threads)),
                          SetOption ''Skill Level'' (NumValue (currentSkillLevel s1)),
                          SetOption ''Ponder'' (StrValue ''false'')] \<rparr>
      in s1 \<lparr> workers := workers s1 @ [l], worker := Some n, isSingleThreaded := single \<rparr>)"

definition initializeWorker :: "nat \<Rightarrow> string \<Rightarrow> bool \<Rightarrow> state \<Rightarrow> error option \<times> state" where
  "initializeWorker p url single s =
     (let s1 = releaseWorker s
      in if constructorThrows url s1 then (Some ConstructorError, s1)
         else (None, startWorker p url single s1))"

text \<open>
  \<open>initialize()\<close> returns the promise and the new state. An exception of the executor
  rejects the new promise, which is stored in \<open>pendingInit\<close> all the same.
\<close>

definition initialize :: "state \<Rightarrow> nat \<times> state" where
  "initialize s =
     (case pendingInit s of
        Some p \<Rightarrow> (p, s)
      | None \<Rightarrow>
          (let p = length (initPromises s);
               s1 = s \<lparr> initPromises := initPromises s @
                      [\<lparr> resolveCalls = 0, rejected = None, reactions = [] \<rparr>] \<rparr>;
               (exn, s2) = initializeWorker p primaryUrl False s1;
               s3 = (case exn of
                       None \<Rightarrow> s2
                     | Some e \<Rightarrow>
                         s2 \<lparr> initPromises := (initPromises s2)[p := (initPromises s2 ! p)
                                \<lparr> rejected := Some e \<rparr>] \<rparr>)
           in (p, s3 \<lparr> pendingInit := Some p \<rparr>)))"

text \<open>
  The callback given to \<open>setTimeout\<close> by launch \<open>n\<close>, and its \<open>handleError\<close>. An
  exception of \<open>initializeWorker\<close> ends the callback uncaught; the state it leaves
  stays.
\<close>

definition timeoutCallback :: "nat \<Rightarrow> state \<Rightarrow> state" where
  "timeoutCallback n s =
     (let l = workers s ! n
      in if \<not> isReady s \<and> \<not> singleThreaded l
         then snd (initializeWorker (resolveInit l) fallbackUrl True s)
         else s)"

definition handleError :: "nat \<Rightarrow> state \<Rightarrow> state" where
  "handleError n s =
     (let l = workers s ! n
      in if \<not> singleThreaded l
         then snd (initializeWorker (resolveInit l) fallbackUrl True s)
         else s)"

subsection \<open>getBestMove\<close>

text \<open>\<open>options?.depth\<close> and \<open>options?.movetimeMs\<close>.\<close>

definition optDepth :: "options option \<Rightarrow> nat option" where
  "optDepth os = (case os of None \<Rightarrow> None | Some op \<Rightarrow> depth op)"

definition optMovetimeMs :: "options option \<Rightarrow> nat option" where
  "optMovetimeMs os = (case os of None \<Rightarrow> None | Some op \<Rightarrow> movetimeMs op)"

text \<open>
  The search command. \<open>if (options?.depth)\<close> tests truthiness: it fails for
  \<open>undefined\<close> and for \<open>0\<close>. The move time is chosen with \<open>??\<close>, which replaces
  \<open>undefined\<close> only.
\<close>

definition goCommand :: "options option \<Rightarrow> command" where
  "goCommand os =
     (let movetime = (case optMovetimeMs os of None \<Rightarrow> 500 | Some t \<Rightarrow> t)
      in case optDepth os of
           Some d \<Rightarrow> if d \<noteq> 0 then GoDepth d else GoMovetime movetime
         | None \<Rightarrow> GoMovetime movetime)"

text \<open>
  The executor of the promise returned by \<open>getBestMove\<close>: register \<open>onMessage\<close>, send
  the position, send the search command. \<open>this.worker!\<close> on \<open>null\<close> throws a
  \<open>TypeError\<close>, which rejects the promise.
\<close>

definition sendSearch :: "nat \<Rightarrow> state \<Rightarrow> state" where
  "sendSearch sid s =
     (case worker s of
        None \<Rightarrow> setStatus sid (Rejected TypeError) s
      | Some w \<Rightarrow>
          (let q = searches s ! sid;
               s1 = updWorker w (\<lambda>l. l \<lparr> messageListeners := messageListeners l @ [OnMessage sid] \<rparr>) s;
               s2 = postMessage w (PositionFen (fen q)) s1;
               s3 = postMessage w (goCommand (opts q)) s2
           in setStatus sid Searching s3))"

text \<open>The call of \<open>getBestMove\<close> that a continuation belongs to.\<close>

fun searchOf :: "continuation \<Rightarrow> nat" where
  "searchOf (AfterInitialize sid) = sid"
| "searchOf (AfterPendingInit sid) = sid"

text \<open>
  \<open>await p\<close> inside \<open>getBestMove\<close>: when \<open>p\<close> is rejected the exception is thrown
  and rejects the call; when \<open>p\<close> is resolved the call goes on at once; otherwise the
  continuation is left with the promise.
\<close>

definition await :: "nat \<Rightarrow> continuation \<Rightarrow> (state \<Rightarrow> state) \<Rightarrow> state \<Rightarrow> state" where
  "await p k body s =
     (case rejected (initPromises s ! p) of
        Some e \<Rightarrow> setStatus (searchOf k) (Rejected e) s
      | None \<Rightarrow>
          if 0 < resolveCalls (initPromises s ! p) then body s
          else s \<lparr> initPromises := (initPromises s)[p := (initPromises s ! p)
                     \<lparr> reactions := reactions (initPromises s ! p) @ [k] \<rparr>] \<rparr>)"

text \<open>
  \<open>getBestMove\<close> from its second line on:
  \<open>if (!this.worker) throw ...; if (!this.isReady) await this.pendingInit;\<close> and then the
  search. Awaiting \<open>null\<close> does not wait.
\<close>

definition afterInitialize :: "nat \<Rightarrow> state \<Rightarrow> state" where
  "afterInitialize sid s =
     (if worker s = None
      then setStatus sid (Rejected (Error ''Stockfish worker failed to initialize'')) s
      else if \<not> isReady s
      then (case pendingInit s of
              None \<Rightarrow> sendSearch sid s
            | Some p \<Rightarrow> await p (AfterPendingInit sid) (sendSearch sid) s)
      else sendSearch sid s)"

text \<open>\<open>getBestMove(fen, options)\<close> returns the number of the search and the new state.\<close>

definition getBestMove :: "string \<Rightarrow> options option \<Rightarrow> state \<Rightarrow> nat \<times> state" where
  "getBestMove f os s =
     (let sid = length (searches s);
          s1 = s \<lparr> searches := searches s @ [\<lparr> fen = f, opts = os, status = Suspended \<rparr>] \<rparr>
      in if worker s1 = None
         then (let (p, s2) = initialize s1
               in (sid, await p (AfterInitialize sid) (afterInitialize sid) s2))
         else (sid, afterInitialize sid s1))"

fun runContinuation :: "continuation \<Rightarrow> state \<Rightarrow> state" where
  "runContinuation (AfterInitialize sid) s = afterInitialize sid s"
| "runContinuation (AfterPendingInit sid) s = sendSearch sid s"

text \<open>
  \<open>resolve()\<close> of promise \<open>p\<close>: the call is counted; the first call runs the waiting
  continuations in the order in which they were registered, a later call finds none. (A
  rejected promise has no waiting continuation: \<open>await\<close> never leaves one with it.)
\<close>

definition resolvePromise :: "nat \<Rightarrow> state \<Rightarrow> state" where
  "resolvePromise p s =
     (let pr = initPromises s ! p;
          s1 = s \<lparr> initPromises := (initPromises s)[p := pr
                     \<lparr> resolveCalls := Suc (resolveCalls pr), reactions := [] \<rparr>] \<rparr>
      in fold runContinuation (reactions pr) s1)"


subsection \<open>The listeners\<close>

text \<open>
  \<open>removeEventListener\<close> on the current worker. A listener that was never added to
  that worker is not in its list, and removing it changes nothing.
\<close>

definition removeMessageListener :: "nat \<Rightarrow> listener \<Rightarrow> state \<Rightarrow> state" where
  "removeMessageListener w l = updWorker w (\<lambda>x. x \<lparr> messageListeners := removeAll l (messageListeners x) \<rparr>)"

definition removeErrorListener :: "nat \<Rightarrow> nat \<Rightarrow> state \<Rightarrow> state" where
  "removeErrorListener w k = updWorker w (\<lambda>x. x \<lparr> errorListeners := removeAll k (errorListeners x) \<rparr>)"

text \<open>
  \<open>handleMessage\<close> of launch \<open>n\<close>. \<open>this.worker!\<close> is the engine's current worker, not
  the worker the closure was made for; on \<open>null\<close> the listener stops with a
  \<open>TypeError\<close> and the statements after it are not reached.
\<close>

definition handleMessage :: "nat \<Rightarrow> string \<Rightarrow> state \<Rightarrow> state" where
  "handleMessage n text s =
     (if text = [] then s
      else if includes_str text ''uciok''
      then (case worker s of
              None \<Rightarrow> s
            | Some cw \<Rightarrow> postMessage cw IsReady s)
      else if includes_str text ''readyok''
      then (let s1 = updWorker n (\<lambda>l. l \<lparr> timeoutPending := False \<rparr>) s;
                s2 = s1 \<lparr> isReady := True \<rparr>
            in case worker s2 of
                 None \<Rightarrow> s2
               | Some cw \<Rightarrow>
                   resolvePromise (resolveInit (workers s2 ! n))
                     (removeErrorListener cw n (removeMessageListener cw (HandleMessage n) s2)))
      else s)"

text \<open>\<open>onMessage\<close> of search \<open>sid\<close>.\<close>

definition onMessage :: "nat \<Rightarrow> string \<Rightarrow> state \<Rightarrow> state" where
  "onMessage sid text s =
     (if text = [] then s
      else if startsWith text ''bestmove''
      then (case worker s of
              None \<Rightarrow> s
            | Some cw \<Rightarrow>
                setStatus sid (Resolved (parseBestMove text))
                  (removeMessageListener cw (OnMessage sid) s))
      else s)"

fun callListener :: "listener \<Rightarrow> string \<Rightarrow> state \<Rightarrow> state" where
  "callListener (HandleMessage n) text s = handleMessage n text s"
| "callListener (OnMessage sid) text s = onMessage sid text s"

text \<open>\<open>e.data\<close> of a message event, and \<open>typeof e.data === 'string' ? e.data : ''\<close>.\<close>

datatype data = StringData string | OtherData

fun textOf :: "data \<Rightarrow> string" where
  "textOf (StringData t) = t"
| "textOf OtherData = []"

text \<open>
  A message event of worker \<open>w\<close>: the listeners registered when the event is dispatched
  are called in the order of their registration; one that has been removed in the
  meantime is skipped.
\<close>

definition dispatchMessage :: "nat \<Rightarrow> data \<Rightarrow> state \<Rightarrow> state" where
  "dispatchMessage w d s =
     (if w < length (workers s) \<and> \<not> terminated (workers s ! w)
      then fold (\<lambda>l t. if l \<in> set (messageListeners (workers t ! w))
                        then callListener l (textOf d) t else t)
             (messageListeners (workers s ! w)) s
      else s)"

definition dispatchError :: "nat \<Rightarrow> state \<Rightarrow> state" where
  "dispatchError w s =
     (if w < length (workers s) \<and> \<not> terminated (workers s ! w)
      then fold (\<lambda>k t. if k \<in> set (errorListeners (workers t ! w))
                        then handleError k t else t)
             (errorListeners (workers s ! w)) s
      else s)"

text \<open>The timer of launch \<open>n\<close> fires, if it is still pending.\<close>

definition timerFires :: "nat \<Rightarrow> state \<Rightarrow> state" where
  "timerFires n s =
     (if n < length (workers s) \<and> timeoutPending (workers s ! n)
      then timeoutCallback n (updWorker n (\<lambda>l. l \<lparr> timeoutPending := False \<rparr>) s)
      else s)"

subsection \<open>Options and disposal\<close>

definition setSkillLevel :: "real \<Rightarrow> state \<Rightarrow> state" where
  "setSkillLevel level s =
     (let s1 = s \<lparr> currentSkillLevel := max 0 (min 20 \<lfloor>level\<rfloor>) \<rparr>
      in case worker s1 of
           Some w \<Rightarrow>
             if isReady s1
             then postMessage w (SetOption ''Skill Level'' (NumValue (currentSkillLevel s1))) s1
             else s1
         | None \<Rightarrow> s1)"

definition setHashSize :: "real \<Rightarrow> state \<Rightarrow> state" where
  "setHashSize mb s =
     (let clamped = max 16 (min 4096 \<lfloor>mb\<rfloor>)
      in case worker s of
           Some w \<Rightarrow>
             if isReady s
             then postMessage w (SetOption ''Hash'' (NumValue clamped)) s
             else s
         | None \<Rightarrow> s)"

definition setOption :: "string \<Rightarrow> optvalue \<Rightarrow> state \<Rightarrow> state" where
  "setOption name v s =
     (case worker s of
        None \<Rightarrow> s
      | Some w \<Rightarrow> postMessage w (SetOption name v) s)"

definition dispose :: "state \<Rightarrow> state" where
  "dispose s =
     (case worker s of
        Some w \<Rightarrow> (terminate w s) \<lparr> worker := None, isReady := False, pendingInit := None \<rparr>
      | None \<Rightarrow> s)"

definition usingSingleThreaded :: "state \<Rightarrow> bool" where
  "usingSingleThreaded s = isSingleThreaded s"

subsection \<open>Executions\<close>

text \<open>
  The tasks of the event loop: a call of a public method by the application, the timer
  of a launch firing, and an error or message event of a worker.
\<close>

datatype event =
    CallInitialize
  | CallGetBestMove string "options option"
  | CallSetSkillLevel real
  | CallSetHashSize real
  | CallSetOption string optvalue
  | CallDispose
  | TimerFires nat
  | WorkerError nat
  | WorkerMessage nat data

fun step :: "event \<Rightarrow> state \<Rightarrow> state" where
  "step CallInitialize s = snd (initialize s)"
| "step (CallGetBestMove f os) s = snd (getBestMove f os s)"
| "step (CallSetSkillLevel level) s = setSkillLevel level s"
| "step (CallSetHashSize mb) s = setHashSize mb s"
| "step (CallSetOption name v) s = setOption name v s"
| "step CallDispose s = dispose s"
| "step (TimerFires n) s = timerFires n s"
| "step (WorkerError w) s = dispatchError w s"
| "step (WorkerMessage w d) s = dispatchMessage w d s"

definition run :: "event list \<Rightarrow> state \<Rightarrow> state" where
  "run evs s = fold step evs s"

section \<open>Views and invariants\<close>

fun isHandshake :: "listener \<Rightarrow> bool" where
  "isHandshake (HandleMessage n) = True"
| "isHandshake (OnMessage sid) = False"

definition closure :: "launch \<Rightarrow> bool \<times> nat \<times> bool \<times> bool \<times> listener list \<times> nat list" where
  "closure l = (singleThreaded l, resolveInit l, terminated l, timeoutPending l,
                filter isHandshake (messageListeners l), errorListeners l)"

definition handshake :: "state \<Rightarrow> nat option \<times> bool \<times> nat option \<times> int \<times> bool \<times> (bool \<times> nat \<times> bool \<times> bool \<times> listener list \<times> nat list) list \<times> string list" where
  "handshake s = (worker s, isReady s, pendingInit s, currentSkillLevel s, isSingleThreaded s,
                  map closure (workers s), throwingScripts s)"

text \<open>The outcome of \<open>initializeWorker\<close> when \<open>new Worker\<close> returns.\<close>

definition relaunch :: "nat \<Rightarrow> string \<Rightarrow> bool \<Rightarrow> state \<Rightarrow> state" where
  "relaunch p url b s = startWorker p url b (releaseWorker s)"

definition rejections :: "state \<Rightarrow> error option list" where
  "rejections s = map rejected (initPromises s)"

definition resolveCounts :: "state \<Rightarrow> nat list" where
  "resolveCounts s = map resolveCalls (initPromises s)"

definition alive :: "state \<Rightarrow> nat \<Rightarrow> bool" where
  "alive s n = (n < length (workers s) \<and> \<not> terminated (workers s ! n))"

text \<open>
  The invariant of a session in an environment where every worker can be constructed:
  only the current worker is live, and without a worker the session is neither ready nor
  initializing. The part of it that does not depend on the environment is \<open>sound\<close>:
  only the current worker is live, and without a worker the session is not ready.
\<close>

definition wellFormed :: "state \<Rightarrow> bool" where
  "wellFormed s =
     ((\<forall>n. alive s n \<longrightarrow> worker s = Some n) \<and>
      (\<forall>w. worker s = Some w \<longrightarrow> w < length (workers s)) \<and>
      (worker s = None \<longrightarrow> \<not> isReady s \<and> pendingInit s = None) \<and>
      throwingScripts s = [])"

definition sound :: "state \<Rightarrow> bool" where
  "sound s =
     ((\<forall>n. alive s n \<longrightarrow> worker s = Some n) \<and>
      (\<forall>w. worker s = Some w \<longrightarrow> w < length (workers s)) \<and>
      (worker s = None \<longrightarrow> \<not> isReady s))"


text \<open>
  A session that has completed the handshake with the primary worker; it serves as the
  concrete state of the examples.
\<close>

definition readyEngine :: state where
  "readyEngine =
     run [CallInitialize, WorkerMessage 0 (StringData ''uciok''),
          WorkerMessage 0 (StringData ''readyok'')] (newEngine None)"

text \<open>
  The tokens of a text in the sense of the specification ("the terminating message is
  whitespace-tokenized"): the maximal runs of characters that are not whitespace, from
  left to right. This definition follows the specification's words; the code's
  \<open>text.trim().split(/\s+/)\<close> is compared with it below.
\<close>

function whitespaceTokens :: "string \<Rightarrow> string list" where
  "whitespaceTokens s =
     (case dropWhile isSpace s of
        [] \<Rightarrow> []
      | c # cs \<Rightarrow>
          takeWhile (\<lambda>c. \<not> isSpace c) (c # cs)
            # whitespaceTokens (dropWhile (\<lambda>c. \<not> isSpace c) (c # cs)))"
  by pat_completeness auto
termination
proof (relation "measure length")
  show "wf (measure length)" by simp
next
  fix s :: string and c cs
  assume d: "dropWhile isSpace s = c # cs"
  have "length (dropWhile (\<lambda>c. \<not> isSpace c) (c # cs)) \<le> length (c # cs)"
    by (rule length_dropWhile_le)
  moreover have "\<not> isSpace c"
    using hd_dropWhile [of isSpace s] d by simp
  hence "dropWhile (\<lambda>c. \<not> isSpace c) (c # cs) = dropWhile (\<lambda>c. \<not> isSpace c) cs"
    by simp
  hence "length (dropWhile (\<lambda>c. \<not> isSpace c) (c # cs)) \<le> length cs"
    by (simp add: length_dropWhile_le)
  moreover have "length (c # cs) \<le> length s"
    using length_dropWhile_le [of isSpace s] d by simp
  ultimately show "(dropWhile (\<lambda>c. \<not> isSpace c) (c # cs), s) \<in> measure length"
    by simp
qed

declare whitespaceTokens.simps [simp del]

text \<open>
  A session in which no worker has reached readiness yet: the engine is not ready and
  \<open>resolve\<close> has not been called on any promise of \<open>initialize\<close>.
\<close>

definition pendingSession :: "state \<Rightarrow> bool" where
  "pendingSession s = (\<not> isReady s \<and> (\<forall>c \<in> set (resolveCounts s). c = 0))"

text \<open>
  The part of the state that the life cycle of the session depends on: for every worker
  whether it is terminated, which handshake listeners it has and which error listeners,
  and for every promise the number of calls of its \<open>resolve\<close>.
\<close>

definition channel :: "launch \<Rightarrow> bool \<times> listener list \<times> nat list" where
  "channel l = (terminated l, filter isHandshake (messageListeners l), errorListeners l)"

definition lifecycle ::
  "state \<Rightarrow> nat option \<times> bool \<times> nat option \<times> (bool \<times> listener list \<times> nat list) list \<times> nat list" where
  "lifecycle s = (worker s, isReady s, pendingInit s, map channel (workers s), resolveCounts s)"

definition handshakeListeners :: "state \<Rightarrow> nat \<Rightarrow> listener list" where
  "handshakeListeners s n = filter isHandshake (messageListeners (workers s ! n))"

text \<open>
  The invariant of a session that is never disposed, in any environment. Only the
  current worker is live and without a worker the session is not ready; a live worker
  carries no listeners
  but those of its own launch; once the session is ready the live worker has neither a
  handshake listener nor an error listener; \<open>resolve\<close> has been called at most once on
  any promise, and not at all before the session is ready; no worker exists before the
  first call of \<open>initialize\<close>.
\<close>

definition listenersOk :: "state \<Rightarrow> bool" where
  "listenersOk s =
     (\<forall>n. alive s n \<longrightarrow>
        set (handshakeListeners s n) \<subseteq> {HandleMessage n} \<and>
        set (errorListeners (workers s ! n)) \<subseteq> {n})"

definition readyQuiet :: "state \<Rightarrow> bool" where
  "readyQuiet s =
     (isReady s \<longrightarrow>
        (\<forall>n. alive s n \<longrightarrow> handshakeListeners s n = [] \<and> errorListeners (workers s ! n) = []))"

definition countsOk :: "state \<Rightarrow> bool" where
  "countsOk s =
     ((\<not> isReady s \<longrightarrow> (\<forall>c \<in> set (resolveCounts s). c = 0)) \<and>
      (\<forall>c \<in> set (resolveCounts s). c \<le> 1))"

definition started :: "state \<Rightarrow> bool" where
  "started s = (pendingInit s = None \<longrightarrow> workers s = [])"

definition sessionInv :: "state \<Rightarrow> bool" where
  "sessionInv s = (sound s \<and> listenersOk s \<and> readyQuiet s \<and> countsOk s \<and> started s)"

text \<open>
  The outcome of the executor of \<open>initialize\<close> in the environment of a state: the
  exception of \<open>new Worker\<close> for the primary script, if it throws.
\<close>

definition rejection :: "state \<Rightarrow> error option" where
  "rejection s = (if constructorThrows primaryUrl s then Some ConstructorError else None)"

text \<open>
  \<open>pendingInit\<close> refers to a promise that exists, and every promise of \<open>initialize\<close>
  is rejected exactly when the executor has thrown.
\<close>

definition promisesOk :: "state \<Rightarrow> bool" where
  "promisesOk s =
     ((\<forall>p. pendingInit s = Some p \<longrightarrow> p < length (initPromises s)) \<and>
      (\<forall>r \<in> set (rejections s). r = rejection s))"

text \<open>The current worker has not been terminated.\<close>

definition current :: "state \<Rightarrow> bool" where
  "current s = (\<forall>w. worker s = Some w \<longrightarrow> alive s w)"

text \<open>
  A search that has been started (its commands are sent, its promise is pending) belongs
  to a ready session, and its listener is registered with the current worker.
\<close>

definition searchingOk :: "state \<Rightarrow> bool" where
  "searchingOk s =
     (\<forall>sid < length (searches s). status (searches s ! sid) = Searching \<longrightarrow>
        isReady s \<and>
        (\<exists>w. worker s = Some w \<and> OnMessage sid \<in> set (messageListeners (workers s ! w))))"

text \<open>
  The only exception that a call of \<open>getBestMove\<close> has been rejected with is the one
  of the primary worker's constructor.
\<close>

definition failuresOk :: "state \<Rightarrow> bool" where
  "failuresOk s =
     (\<forall>q \<in> set (searches s). \<forall>e. status q = Rejected e \<longrightarrow>
        e = ConstructorError \<and> constructorThrows primaryUrl s)"

text \<open>No worker but the current one is live.\<close>

definition singleLive :: "state \<Rightarrow> bool" where
  "singleLive s = (\<forall>n. alive s n \<longrightarrow> worker s = Some n)"

section \<open>Auxiliary lemmas\<close>

lemma fold_frame: "(\<And>x t. g (f x t) = g t) \<Longrightarrow> g (fold f xs s) = g s"
  by (induction xs arbitrary: s) simp_all

lemma fold_inv: "P s \<Longrightarrow> (\<And>x t. P t \<Longrightarrow> P (f x t)) \<Longrightarrow> P (fold f xs s)"
  by (induction xs arbitrary: s) simp_all

lemma map_update_same: "(\<And>x. g (f x) = g x) \<Longrightarrow> map g (xs[i := f (xs ! i)]) = map g xs"
  by (cases "i < length xs") (simp_all add: map_update list_update_same_conv list_update_beyond)

lemma filter_removeAll_other: "\<not> P x \<Longrightarrow> filter P (removeAll x xs) = filter P xs"
  by (induction xs) auto

lemma handshake_updWorker:
  "(\<And>l. closure (f l) = closure l) \<Longrightarrow> handshake (updWorker w f s) = handshake s"
  by (simp add: handshake_def updWorker_def map_update_same)

lemma handshake_postMessage [simp]: "handshake (postMessage w c s) = handshake s"
  by (simp add: postMessage_def handshake_updWorker closure_def)

lemma handshake_setStatus [simp]: "handshake (setStatus i st s) = handshake s"
  by (simp add: setStatus_def handshake_def)

lemma handshake_sendSearch [simp]: "handshake (sendSearch i s) = handshake s"
  by (simp add: sendSearch_def Let_def handshake_updWorker closure_def split: option.splits)

lemma handshake_await:
  "(\<And>t. handshake (body t) = handshake t) \<Longrightarrow> handshake (await p k body s) = handshake s"
  by (simp add: await_def handshake_def setStatus_def map_update_same split: option.splits)

lemma handshake_afterInitialize [simp]: "handshake (afterInitialize i s) = handshake s"
  by (simp add: afterInitialize_def handshake_await split: option.splits)

lemma handshake_runContinuation [simp]: "handshake (runContinuation k s) = handshake s"
  by (cases k) simp_all

lemma handshake_continuations [simp]: "handshake (fold runContinuation ks s) = handshake s"
  by (rule fold_frame) simp

lemma handshake_onMessage [simp]: "handshake (onMessage i text s) = handshake s"
  by (simp add: onMessage_def removeMessageListener_def handshake_updWorker closure_def
      filter_removeAll_other split: option.splits)

lemma handshake_setHashSize [simp]: "handshake (setHashSize x s) = handshake s"
  by (simp add: setHashSize_def Let_def split: option.splits)

lemma handshake_setOption [simp]: "handshake (setOption n v s) = handshake s"
  by (simp add: setOption_def split: option.splits)

lemma handshakeD:
  assumes "handshake s' = handshake s"
  shows "worker s' = worker s" "isReady s' = isReady s" "pendingInit s' = pendingInit s"
    "currentSkillLevel s' = currentSkillLevel s" "isSingleThreaded s' = isSingleThreaded s"
    "length (workers s') = length (workers s)"
    "map closure (workers s') = map closure (workers s)"
    "throwingScripts s' = throwingScripts s"
  using assms by (auto simp: handshake_def dest: map_eq_imp_length_eq)

lemma resolveCounts_updWorker [simp]: "resolveCounts (updWorker w f s) = resolveCounts s"
  by (simp add: resolveCounts_def updWorker_def)

lemma resolveCounts_postMessage [simp]: "resolveCounts (postMessage w c s) = resolveCounts s"
  by (simp add: postMessage_def)

lemma resolveCounts_setStatus [simp]: "resolveCounts (setStatus i st s) = resolveCounts s"
  by (simp add: setStatus_def resolveCounts_def)

lemma resolveCounts_sendSearch [simp]: "resolveCounts (sendSearch i s) = resolveCounts s"
  by (simp add: sendSearch_def Let_def split: option.splits)

lemma resolveCounts_await:
  "(\<And>t. resolveCounts (body t) = resolveCounts t) \<Longrightarrow>
   resolveCounts (await p k body s) = resolveCounts s"
  by (simp add: await_def resolveCounts_def setStatus_def map_update_same split: option.splits)

lemma resolveCounts_afterInitialize [simp]: "resolveCounts (afterInitialize i s) = resolveCounts s"
  by (simp add: afterInitialize_def resolveCounts_await split: option.splits)

lemma resolveCounts_runContinuation [simp]: "resolveCounts (runContinuation k s) = resolveCounts s"
  by (cases k) simp_all

lemma resolveCounts_continuations [simp]:
  "resolveCounts (fold runContinuation ks s) = resolveCounts s"
  by (rule fold_frame) simp

lemma resolveCounts_onMessage [simp]: "resolveCounts (onMessage i text s) = resolveCounts s"
  by (simp add: onMessage_def removeMessageListener_def split: option.splits)

lemma resolveCounts_resolvePromise:
  "resolveCounts (resolvePromise p s) = (resolveCounts s)[p := Suc (resolveCounts s ! p)]"
proof -
  have "resolveCounts (s\<lparr>initPromises := (initPromises s)[p := (initPromises s ! p)
          \<lparr>resolveCalls := Suc (resolveCalls (initPromises s ! p)), reactions := []\<rparr>]\<rparr>)
        = (resolveCounts s)[p := Suc (resolveCounts s ! p)]"
    by (cases "p < length (initPromises s)")
       (simp_all add: resolveCounts_def map_update list_update_beyond)
  thus ?thesis by (simp add: resolvePromise_def Let_def)
qed

lemma handshake_resolvePromise [simp]: "handshake (resolvePromise p s) = handshake s"
proof -
  have "handshake (s\<lparr>initPromises := ps\<rparr>) = handshake s" for ps
    by (simp add: handshake_def)
  thus ?thesis by (simp add: resolvePromise_def Let_def)
qed

lemma alive_handshake: "handshake s' = handshake s \<Longrightarrow> alive s' n = alive s n"
proof -
  assume h: "handshake s' = handshake s"
  have len: "length (workers s') = length (workers s)" by (rule handshakeD [OF h])
  have "n < length (workers s) \<Longrightarrow> closure (workers s' ! n) = closure (workers s ! n)"
    using handshakeD(7) [OF h] len by (metis nth_map)
  thus ?thesis using len by (auto simp: alive_def closure_def)
qed

lemma wellFormed_handshake:
  assumes h: "handshake s' = handshake s"
  shows "wellFormed s' = wellFormed s"
  unfolding wellFormed_def alive_handshake [OF h] handshakeD(1,2,3,6,8) [OF h] ..

lemma alive_updWorker:
  assumes "\<And>l. terminated (f l) = terminated l"
  shows "alive (updWorker w f s) n = alive s n"
proof (cases "n = w")
  case True
  thus ?thesis by (cases "w < length (workers s)") (simp_all add: alive_def updWorker_def assms)
next
  case False
  thus ?thesis by (simp add: alive_def updWorker_def)
qed

lemma wellFormed_newEngine: "wellFormed (newEngine hc)"
  by (simp add: wellFormed_def newEngine_def alive_def)

lemma relaunch_fields:
  "worker (relaunch p url b s) = Some (length (workers s))"
  "isReady (relaunch p url b s) = isReady s"
  "pendingInit (relaunch p url b s) = pendingInit s"
  "currentSkillLevel (relaunch p url b s) = currentSkillLevel s"
  "isSingleThreaded (relaunch p url b s) = b"
  "length (workers (relaunch p url b s)) = Suc (length (workers s))"
  "resolveCounts (relaunch p url b s) = resolveCounts s"
  "searches (relaunch p url b s) = searches s"
  "throwingScripts (relaunch p url b s) = throwingScripts s"
  "initPromises (relaunch p url b s) = initPromises s"
  by (simp_all add: relaunch_def startWorker_def releaseWorker_def Let_def terminate_def resolveCounts_def updWorker_def
      split: option.splits)


lemma relaunch_terminated:
  assumes "n < length (workers s)"
  shows "terminated (workers (relaunch p url b s) ! n) =
         (terminated (workers s ! n) \<or> worker s = Some n)"
proof (cases "worker s")
  case None
  thus ?thesis using assms by (simp add: relaunch_def startWorker_def releaseWorker_def Let_def nth_append)
next
  case (Some w)
  show ?thesis
  proof (cases "n = w")
    case True
    thus ?thesis using assms Some
      by (simp add: relaunch_def startWorker_def releaseWorker_def Let_def terminate_def updWorker_def nth_append)
  next
    case False
    thus ?thesis using assms Some
      by (simp add: relaunch_def startWorker_def releaseWorker_def Let_def terminate_def updWorker_def nth_append)
  qed
qed

lemma relaunch_new:
  "workers (relaunch p url b s) ! length (workers s) =
     \<lparr> scriptUrl = url, singleThreaded = b, resolveInit = p, terminated = False,
       timeoutPending = True, messageListeners = [HandleMessage (length (workers s))],
       errorListeners = [length (workers s)],
       posted = [Uci, UciNewGame,
                 SetOption ''Threads'' (NumValue (int (if b then 1 else max 1 (min (case hardwareConcurrency s of Some c \<Rightarrow> if c \<noteq> 0 then c else 2 | None \<Rightarrow> 2) 8)))),
                 SetOption ''Skill Level'' (NumValue (currentSkillLevel s)),
                 SetOption ''Ponder'' (StrValue ''false'')] \<rparr>"
  by (cases "worker s")
     (simp_all add: relaunch_def startWorker_def releaseWorker_def Let_def terminate_def updWorker_def nth_append)

lemma alive_relaunch:
  assumes a: "alive (relaunch p url b s) n" and wf: "\<And>n. alive s n \<Longrightarrow> worker s = Some n"
  shows "n = length (workers s)"
proof (rule ccontr)
  assume ne: "n \<noteq> length (workers s)"
  from a have "n < Suc (length (workers s))"
    unfolding alive_def relaunch_fields by (rule conjunct1)
  with ne have lt: "n < length (workers s)" by arith
  from a have "\<not> terminated (workers (relaunch p url b s) ! n)"
    unfolding alive_def by (rule conjunct2)
  hence nt: "\<not> terminated (workers s ! n)" and nc: "worker s \<noteq> Some n"
    unfolding relaunch_terminated [OF lt] by blast+
  from lt nt have "alive s n" unfolding alive_def by (rule conjI)
  hence "worker s = Some n" by (rule wf)
  with nc show False ..
qed

lemma wellFormed_relaunch:
  assumes wf: "wellFormed s"
  shows "wellFormed (relaunch p url b s)"
  unfolding wellFormed_def relaunch_fields
proof (intro conjI allI impI)
  fix n assume a: "alive (relaunch p url b s) n"
  have "\<And>n. alive s n \<Longrightarrow> worker s = Some n" using wf unfolding wellFormed_def by blast
  from alive_relaunch [OF a this] show "Some (length (workers s)) = Some n" by simp
next
  fix w assume "Some (length (workers s)) = Some w"
  thus "w < Suc (length (workers s))" by simp
next
  assume "Some (length (workers s)) = None"
  thus "\<not> isReady s" by simp
next
  assume "Some (length (workers s)) = None"
  thus "pendingInit s = None" by simp
next
  show "throwingScripts s = []" using wf unfolding wellFormed_def by blast
qed

lemma releaseWorker_fields:
  "worker (releaseWorker s) = None"
  "isReady (releaseWorker s) = isReady s"
  "pendingInit (releaseWorker s) = pendingInit s"
  "currentSkillLevel (releaseWorker s) = currentSkillLevel s"
  "isSingleThreaded (releaseWorker s) = isSingleThreaded s"
  "length (workers (releaseWorker s)) = length (workers s)"
  "resolveCounts (releaseWorker s) = resolveCounts s"
  "searches (releaseWorker s) = searches s"
  "throwingScripts (releaseWorker s) = throwingScripts s"
  "initPromises (releaseWorker s) = initPromises s"
  by (simp_all add: releaseWorker_def terminate_def resolveCounts_def updWorker_def
      split: option.splits)

lemma constructorThrows_releaseWorker [simp]:
  "constructorThrows url (releaseWorker s) = constructorThrows url s"
  by (simp add: constructorThrows_def releaseWorker_fields)

lemma initializeWorker_returns:
  "\<not> constructorThrows url s \<Longrightarrow> initializeWorker p url b s = (None, relaunch p url b s)"
  by (simp add: initializeWorker_def Let_def relaunch_def)

lemma initializeWorker_throws:
  "constructorThrows url s \<Longrightarrow>
   initializeWorker p url b s = (Some ConstructorError, releaseWorker s)"
  by (simp add: initializeWorker_def Let_def)

lemma initializeWorker_frame:
  "isReady (snd (initializeWorker p url b s)) = isReady s"
  "pendingInit (snd (initializeWorker p url b s)) = pendingInit s"
  "currentSkillLevel (snd (initializeWorker p url b s)) = currentSkillLevel s"
  "resolveCounts (snd (initializeWorker p url b s)) = resolveCounts s"
  "searches (snd (initializeWorker p url b s)) = searches s"
  "throwingScripts (snd (initializeWorker p url b s)) = throwingScripts s"
  "initPromises (snd (initializeWorker p url b s)) = initPromises s"
  by (cases "constructorThrows url s";
      simp add: initializeWorker_returns initializeWorker_throws relaunch_fields
        releaseWorker_fields)+

lemma wellFormed_no_throw: "wellFormed s \<Longrightarrow> \<not> constructorThrows url s"
  by (simp add: wellFormed_def constructorThrows_def)

lemma wellFormed_initializeWorker:
  "wellFormed s \<Longrightarrow> wellFormed (snd (initializeWorker p url b s))"
  by (simp add: initializeWorker_returns wellFormed_no_throw wellFormed_relaunch)


lemmas resolvePromise_fields [simp] =
  handshakeD [OF handshake_resolvePromise] alive_handshake [OF handshake_resolvePromise]
lemmas postMessage_fields [simp] =
  handshakeD [OF handshake_postMessage] alive_handshake [OF handshake_postMessage]
lemmas setStatus_fields [simp] =
  handshakeD [OF handshake_setStatus] alive_handshake [OF handshake_setStatus]
lemmas sendSearch_fields [simp] =
  handshakeD [OF handshake_sendSearch] alive_handshake [OF handshake_sendSearch]
lemmas afterInitialize_fields [simp] =
  handshakeD [OF handshake_afterInitialize] alive_handshake [OF handshake_afterInitialize]
lemmas onMessage_fields [simp] =
  handshakeD [OF handshake_onMessage] alive_handshake [OF handshake_onMessage]
lemmas setHashSize_fields [simp] =
  handshakeD [OF handshake_setHashSize] alive_handshake [OF handshake_setHashSize]
lemmas setOption_fields [simp] =
  handshakeD [OF handshake_setOption] alive_handshake [OF handshake_setOption]

lemma updWorker_fields [simp]:
  "worker (updWorker w f s) = worker s" "isReady (updWorker w f s) = isReady s"
  "pendingInit (updWorker w f s) = pendingInit s"
  "currentSkillLevel (updWorker w f s) = currentSkillLevel s"
  "isSingleThreaded (updWorker w f s) = isSingleThreaded s"
  "length (workers (updWorker w f s)) = length (workers s)"
  "throwingScripts (updWorker w f s) = throwingScripts s"
  "initPromises (updWorker w f s) = initPromises s"
  "searches (updWorker w f s) = searches s"
  by (simp_all add: updWorker_def)

lemma alive_isReady_update [simp]: "alive (s\<lparr>isReady := b\<rparr>) n = alive s n"
  by (simp add: alive_def)

lemma handleMessage_fields [simp]:
  "worker (handleMessage n t s) = worker s"
  "pendingInit (handleMessage n t s) = pendingInit s"
  "currentSkillLevel (handleMessage n t s) = currentSkillLevel s"
  "isSingleThreaded (handleMessage n t s) = isSingleThreaded s"
  "length (workers (handleMessage n t s)) = length (workers s)"
  "alive (handleMessage n t s) k = alive s k"
  "throwingScripts (handleMessage n t s) = throwingScripts s"
  by (simp_all add: handleMessage_def Let_def removeErrorListener_def
      removeMessageListener_def alive_updWorker split: option.splits)

lemma handleMessage_isReady: "isReady s \<Longrightarrow> isReady (handleMessage n t s)"
  by (simp add: handleMessage_def Let_def removeErrorListener_def
      removeMessageListener_def split: option.splits)

lemma wellFormed_mono:
  assumes wf: "wellFormed s"
    and al: "\<And>n. alive s' n \<Longrightarrow> alive s n"
    and w: "worker s' = worker s"
    and len: "length (workers s') = length (workers s)"
    and p: "worker s = None \<Longrightarrow> pendingInit s' = None"
    and r: "worker s = None \<Longrightarrow> \<not> isReady s'"
    and e: "throwingScripts s' = throwingScripts s"
  shows "wellFormed s'"
  unfolding wellFormed_def w len e
proof (intro conjI allI impI)
  fix n assume "alive s' n"
  hence "alive s n" by (rule al)
  with wf show "worker s = Some n" unfolding wellFormed_def by blast
next
  fix x assume "worker s = Some x" with wf show "x < length (workers s)"
    unfolding wellFormed_def by blast
next
  assume "worker s = None" thus "\<not> isReady s'" by (rule r)
next
  assume "worker s = None" thus "pendingInit s' = None" by (rule p)
next
  show "throwingScripts s = []" using wf unfolding wellFormed_def by blast
qed

lemma wellFormedD:
  assumes "wellFormed s"
  shows "alive s n \<Longrightarrow> worker s = Some n"
    and "worker s = Some w \<Longrightarrow> w < length (workers s)"
    and "worker s = None \<Longrightarrow> \<not> isReady s"
    and "worker s = None \<Longrightarrow> pendingInit s = None"
    and "throwingScripts s = []"
  using assms unfolding wellFormed_def by blast+

lemma wellFormed_handleMessage:
  "wellFormed s \<Longrightarrow> worker s \<noteq> None \<Longrightarrow> wellFormed (handleMessage n t s)"
  by (rule wellFormed_mono [where s = s]) simp_all

lemma wellFormed_callListener:
  "wellFormed s \<Longrightarrow> worker s \<noteq> None \<Longrightarrow> wellFormed (callListener l t s)"
  by (cases l) (simp_all add: wellFormed_handleMessage wellFormed_handshake [OF handshake_onMessage])

lemma callListener_fields [simp]:
  "worker (callListener l t s) = worker s"
  "pendingInit (callListener l t s) = pendingInit s"
  "currentSkillLevel (callListener l t s) = currentSkillLevel s"
  "isSingleThreaded (callListener l t s) = isSingleThreaded s"
  "length (workers (callListener l t s)) = length (workers s)"
  "alive (callListener l t s) k = alive s k"
  "throwingScripts (callListener l t s) = throwingScripts s"
  by (cases l; simp)+


lemma wellFormed_dispatchMessage:
  assumes wf: "wellFormed s"
  shows "wellFormed (dispatchMessage w d s)"
proof (cases "alive s w")
  case False
  hence "dispatchMessage w d s = s" by (auto simp: dispatchMessage_def alive_def)
  thus ?thesis using wf by simp
next
  case True
  with wf have cur: "worker s = Some w" unfolding wellFormed_def by blast
  have "wellFormed t \<and> worker t = Some w"
    if "t = fold (\<lambda>l t. if l \<in> set (messageListeners (workers t ! w))
                        then callListener l (textOf d) t else t) ls s" for ls t
    using that wf cur
  proof (induction ls arbitrary: s t)
    case Nil
    thus ?case by simp
  next
    case (Cons l ls)
    show ?case
    proof (rule Cons.IH)
      show "t = fold (\<lambda>l t. if l \<in> set (messageListeners (workers t ! w))
                        then callListener l (textOf d) t else t) ls
                 (if l \<in> set (messageListeners (workers s ! w))
                  then callListener l (textOf d) s else s)"
        using Cons.prems(1) by simp
      show "wellFormed (if l \<in> set (messageListeners (workers s ! w))
                  then callListener l (textOf d) s else s)"
        using Cons.prems(2,3) by (simp add: wellFormed_callListener)
      show "worker (if l \<in> set (messageListeners (workers s ! w))
                  then callListener l (textOf d) s else s) = Some w"
        using Cons.prems(3) by simp
    qed
  qed
  thus ?thesis using True by (simp add: dispatchMessage_def alive_def)
qed

lemma dispatchMessage_fields [simp]:
  "worker (dispatchMessage w d s) = worker s"
  "pendingInit (dispatchMessage w d s) = pendingInit s"
  "currentSkillLevel (dispatchMessage w d s) = currentSkillLevel s"
  "isSingleThreaded (dispatchMessage w d s) = isSingleThreaded s"
  "length (workers (dispatchMessage w d s)) = length (workers s)"
  "throwingScripts (dispatchMessage w d s) = throwingScripts s"
  by (simp_all add: dispatchMessage_def fold_frame
      fold_frame [where g = "\<lambda>s. length (workers s)"])

lemma handleError_fields [simp]:
  "isReady (handleError n s) = isReady s"
  "pendingInit (handleError n s) = pendingInit s"
  "currentSkillLevel (handleError n s) = currentSkillLevel s"
  "resolveCounts (handleError n s) = resolveCounts s"
  "throwingScripts (handleError n s) = throwingScripts s"
  "initPromises (handleError n s) = initPromises s"
  by (simp_all add: handleError_def Let_def initializeWorker_frame)

lemma wellFormed_handleError: "wellFormed s \<Longrightarrow> wellFormed (handleError n s)"
  by (simp add: handleError_def Let_def wellFormed_initializeWorker)

lemma timeoutCallback_fields [simp]:
  "isReady (timeoutCallback n s) = isReady s"
  "pendingInit (timeoutCallback n s) = pendingInit s"
  "currentSkillLevel (timeoutCallback n s) = currentSkillLevel s"
  "resolveCounts (timeoutCallback n s) = resolveCounts s"
  "throwingScripts (timeoutCallback n s) = throwingScripts s"
  "initPromises (timeoutCallback n s) = initPromises s"
  by (simp_all add: timeoutCallback_def Let_def initializeWorker_frame)

lemma wellFormed_timeoutCallback: "wellFormed s \<Longrightarrow> wellFormed (timeoutCallback n s)"
  by (simp add: timeoutCallback_def Let_def wellFormed_initializeWorker)

lemma dispatchError_fields [simp]:
  "isReady (dispatchError w s) = isReady s"
  "pendingInit (dispatchError w s) = pendingInit s"
  "currentSkillLevel (dispatchError w s) = currentSkillLevel s"
  "resolveCounts (dispatchError w s) = resolveCounts s"
  "throwingScripts (dispatchError w s) = throwingScripts s"
  "initPromises (dispatchError w s) = initPromises s"
  by (simp_all add: dispatchError_def fold_frame)

lemma wellFormed_dispatchError: "wellFormed s \<Longrightarrow> wellFormed (dispatchError w s)"
  by (simp add: dispatchError_def fold_inv wellFormed_handleError)

lemma wellFormed_updWorker:
  "(\<And>l. terminated (f l) = terminated l) \<Longrightarrow> wellFormed (updWorker w f s) = wellFormed s"
  by (simp add: wellFormed_def alive_updWorker)

lemma timerFires_fields [simp]:
  "isReady (timerFires n s) = isReady s"
  "pendingInit (timerFires n s) = pendingInit s"
  "currentSkillLevel (timerFires n s) = currentSkillLevel s"
  "resolveCounts (timerFires n s) = resolveCounts s"
  "throwingScripts (timerFires n s) = throwingScripts s"
  "initPromises (timerFires n s) = initPromises s"
  by (simp_all add: timerFires_def)

lemma wellFormed_timerFires: "wellFormed s \<Longrightarrow> wellFormed (timerFires n s)"
  by (simp add: timerFires_def wellFormed_timeoutCallback wellFormed_updWorker)


lemma resolveCounts_updates [simp]:
  "resolveCounts (s\<lparr>currentSkillLevel := v\<rparr>) = resolveCounts s"
  "resolveCounts (s\<lparr>worker := w\<rparr>) = resolveCounts s"
  "resolveCounts (s\<lparr>isReady := b\<rparr>) = resolveCounts s"
  "resolveCounts (s\<lparr>pendingInit := p\<rparr>) = resolveCounts s"
  "resolveCounts (s\<lparr>isSingleThreaded := b\<rparr>) = resolveCounts s"
  "resolveCounts (s\<lparr>workers := ws\<rparr>) = resolveCounts s"
  by (simp_all add: resolveCounts_def)

lemma alive_updates [simp]:
  "alive (s\<lparr>currentSkillLevel := v\<rparr>) n = alive s n"
  "alive (s\<lparr>pendingInit := p\<rparr>) n = alive s n"
  "alive (s\<lparr>initPromises := ps\<rparr>) n = alive s n"
  "alive (s\<lparr>searches := qs\<rparr>) n = alive s n"
  by (simp_all add: alive_def)

lemma initialize_pending: "pendingInit s = Some p \<Longrightarrow> initialize s = (p, s)"
  by (simp add: initialize_def)

lemma wellFormed_initPromises_update [simp]:
  "wellFormed (s\<lparr>initPromises := ps\<rparr>) = wellFormed s"
  by (simp add: wellFormed_def alive_def)

lemma wellFormed_searches_update [simp]:
  "wellFormed (s\<lparr>searches := qs\<rparr>) = wellFormed s"
  by (simp add: wellFormed_def alive_def)

lemma initialize_fresh:
  "pendingInit s = None \<Longrightarrow> \<not> constructorThrows primaryUrl s \<Longrightarrow>
   initialize s =
     (length (initPromises s),
      (relaunch (length (initPromises s)) primaryUrl False
         (s\<lparr>initPromises := initPromises s @
              [\<lparr>resolveCalls = 0, rejected = None, reactions = []\<rparr>]\<rparr>))
       \<lparr>pendingInit := Some (length (initPromises s))\<rparr>)"
  by (simp add: initialize_def Let_def initializeWorker_returns constructorThrows_def)

lemma initialize_fresh_throws:
  "pendingInit s = None \<Longrightarrow> constructorThrows primaryUrl s \<Longrightarrow>
   initialize s =
     (length (initPromises s),
      (releaseWorker s)
       \<lparr>initPromises := initPromises s @
            [\<lparr>resolveCalls = 0, rejected = Some ConstructorError, reactions = []\<rparr>],
        pendingInit := Some (length (initPromises s))\<rparr>)"
  by (simp add: initialize_def Let_def initializeWorker_def constructorThrows_def
      releaseWorker_def terminate_def updWorker_def split: option.splits)

lemma initialize_fields [simp]:
  "pendingInit (snd (initialize s)) = Some (fst (initialize s))"
  "currentSkillLevel (snd (initialize s)) = currentSkillLevel s"
  "isReady (snd (initialize s)) = isReady s"
  "throwingScripts (snd (initialize s)) = throwingScripts s"
  by (cases "pendingInit s"; cases "constructorThrows primaryUrl s";
      simp add: initialize_pending initialize_fresh initialize_fresh_throws relaunch_fields
        releaseWorker_fields)+

lemma wellFormed_pendingInit_update:
  "wellFormed s \<Longrightarrow> worker s \<noteq> None \<Longrightarrow> wellFormed (s\<lparr>pendingInit := p\<rparr>)"
  by (rule wellFormed_mono [where s = s]) simp_all

lemma wellFormed_initialize: "wellFormed s \<Longrightarrow> wellFormed (snd (initialize s))"
  by (cases "pendingInit s")
     (simp_all add: initialize_pending initialize_fresh wellFormed_no_throw
        wellFormed_pendingInit_update wellFormed_relaunch relaunch_fields)

lemma resolveCounts_initialize:
  "resolveCounts (snd (initialize s)) =
     (if pendingInit s = None then resolveCounts s @ [0] else resolveCounts s)"
  by (cases "pendingInit s"; cases "constructorThrows primaryUrl s")
     (simp_all add: initialize_pending initialize_fresh initialize_fresh_throws
        relaunch_fields resolveCounts_def)

lemma wellFormed_await:
  "(\<And>t. wellFormed t \<Longrightarrow> wellFormed (body t)) \<Longrightarrow> wellFormed s \<Longrightarrow>
   wellFormed (await p k body s)"
  by (simp add: await_def wellFormed_handshake [OF handshake_setStatus] split: option.splits)

lemma await_fields:
  assumes "\<And>t. pendingInit (body t) = pendingInit t"
    "\<And>t. currentSkillLevel (body t) = currentSkillLevel t"
    "\<And>t. isReady (body t) = isReady t"
    "\<And>t. throwingScripts (body t) = throwingScripts t"
  shows "pendingInit (await p k body s) = pendingInit s"
    "currentSkillLevel (await p k body s) = currentSkillLevel s"
    "isReady (await p k body s) = isReady s"
    "throwingScripts (await p k body s) = throwingScripts s"
  using assms by (simp_all add: await_def split: option.splits)

lemma wellFormed_afterInitialize [simp]: "wellFormed (afterInitialize i s) = wellFormed s"
  by (rule wellFormed_handshake) simp

lemma wellFormed_getBestMove: "wellFormed s \<Longrightarrow> wellFormed (snd (getBestMove f os s))"
  by (simp add: getBestMove_def Let_def split_beta wellFormed_await wellFormed_initialize)

lemma getBestMove_fields [simp]:
  "currentSkillLevel (snd (getBestMove f os s)) = currentSkillLevel s"
  "isReady (snd (getBestMove f os s)) = isReady s"
  "throwingScripts (snd (getBestMove f os s)) = throwingScripts s"
  "pendingInit s = Some p \<Longrightarrow> pendingInit (snd (getBestMove f os s)) = Some p"
  by (simp_all add: getBestMove_def Let_def split_beta await_fields initialize_pending)

lemma resolveCounts_searches_update [simp]:
  "resolveCounts (s\<lparr>searches := qs\<rparr>) = resolveCounts s"
  by (simp add: resolveCounts_def)

lemma resolveCounts_getBestMove:
  "resolveCounts (snd (getBestMove f os s)) = resolveCounts s \<or>
   resolveCounts (snd (getBestMove f os s)) = resolveCounts s @ [0]"
  by (simp add: getBestMove_def Let_def split_beta resolveCounts_await resolveCounts_initialize)

lemma setSkillLevel_fields [simp]:
  "worker (setSkillLevel x s) = worker s"
  "isReady (setSkillLevel x s) = isReady s"
  "pendingInit (setSkillLevel x s) = pendingInit s"
  "currentSkillLevel (setSkillLevel x s) = max 0 (min 20 \<lfloor>x\<rfloor>)"
  "isSingleThreaded (setSkillLevel x s) = isSingleThreaded s"
  "resolveCounts (setSkillLevel x s) = resolveCounts s"
  "length (workers (setSkillLevel x s)) = length (workers s)"
  "throwingScripts (setSkillLevel x s) = throwingScripts s"
  by (simp_all add: setSkillLevel_def Let_def split: option.splits)

lemma alive_setSkillLevel [simp]: "alive (setSkillLevel x s) n = alive s n"
  by (simp add: setSkillLevel_def Let_def split: option.splits)

lemma wellFormed_setSkillLevel: "wellFormed s \<Longrightarrow> wellFormed (setSkillLevel x s)"
  by (rule wellFormed_mono [where s = s]) (simp_all add: wellFormedD)

lemma wellFormed_dispose: "wellFormed s \<Longrightarrow> wellFormed (dispose s)"
proof (cases "worker s")
  case None
  thus "wellFormed s \<Longrightarrow> wellFormed (dispose s)" by (simp add: dispose_def)
next
  case (Some w)
  assume wf: "wellFormed s"
  have "\<not> alive (dispose s) n" for n
  proof
    assume a: "alive (dispose s) n"
    hence lt: "n < length (workers s)" using Some by (simp add: alive_def dispose_def terminate_def)
    show False
    proof (cases "n = w")
      case True
      thus False using a Some lt by (simp add: alive_def dispose_def terminate_def updWorker_def)
    next
      case False
      hence "alive s n" using a Some lt
        by (simp add: alive_def dispose_def terminate_def updWorker_def)
      with wf have "worker s = Some n" unfolding wellFormed_def by blast
      with Some False show False by simp
    qed
  qed
  thus "wellFormed (dispose s)" using Some wellFormedD(5) [OF wf]
    by (simp add: wellFormed_def dispose_def terminate_def updWorker_def)
qed

lemma dispose_fields [simp]:
  "currentSkillLevel (dispose s) = currentSkillLevel s"
  "isSingleThreaded (dispose s) = isSingleThreaded s"
  "resolveCounts (dispose s) = resolveCounts s"
  "worker (dispose s) = None"
  "throwingScripts (dispose s) = throwingScripts s"
  by (simp_all add: dispose_def terminate_def split: option.splits)

lemma wellFormed_step: "wellFormed s \<Longrightarrow> wellFormed (step e s)"
  by (cases e)
     (simp_all add: wellFormed_initialize wellFormed_getBestMove wellFormed_setSkillLevel
        wellFormed_handshake [OF handshake_setHashSize] wellFormed_handshake [OF handshake_setOption]
        wellFormed_dispose wellFormed_timerFires wellFormed_dispatchError
        wellFormed_dispatchMessage)

lemma wellFormed_run: "wellFormed s \<Longrightarrow> wellFormed (run evs s)"
  unfolding run_def by (induction evs arbitrary: s) (simp_all add: wellFormed_step)

lemma currentSkillLevel_step:
  "currentSkillLevel (step e s) =
     (case e of CallSetSkillLevel x \<Rightarrow> max 0 (min 20 \<lfloor>x\<rfloor>) | _ \<Rightarrow> currentSkillLevel s)"
  by (cases e) simp_all

lemma pendingInit_step:
  "pendingInit s = Some p \<Longrightarrow> e \<noteq> CallDispose \<Longrightarrow> pendingInit (step e s) = Some p"
  by (cases e) (simp_all add: initialize_pending)


lemmas engine_defs = newEngine_def newEngineIn_def updWorker_def postMessage_def terminate_def setStatus_def
  primaryUrl_def fallbackUrl_def releaseWorker_def constructorThrows_def startWorker_def
  initializeWorker_def initialize_def timeoutCallback_def
  handleError_def optDepth_def optMovetimeMs_def goCommand_def sendSearch_def await_def
  afterInitialize_def getBestMove_def resolvePromise_def removeMessageListener_def
  removeErrorListener_def handleMessage_def onMessage_def dispatchMessage_def dispatchError_def
  timerFires_def setSkillLevel_def setHashSize_def setOption_def dispose_def run_def
  includes_str_def startsWith_def Let_def sublist_code prefix_code

lemma readyEngine_fields:
  "worker readyEngine = Some 0" "isReady readyEngine" "length (workers readyEngine) = 1"
  "posted (workers readyEngine ! 0) = [Uci, UciNewGame, SetOption ''Threads'' (NumValue 2),
     SetOption ''Skill Level'' (NumValue 20), SetOption ''Ponder'' (StrValue ''false''), IsReady]"
  "searches readyEngine = []"
  by (simp_all add: readyEngine_def engine_defs)

lemma setSkillLevel_posted:
  "worker s = Some w \<Longrightarrow> w < length (workers s) \<Longrightarrow> isReady s \<Longrightarrow>
   posted (workers (setSkillLevel x s) ! w) =
     posted (workers s ! w) @ [SetOption ''Skill Level'' (NumValue (max 0 (min 20 \<lfloor>x\<rfloor>)))]"
  by (simp add: setSkillLevel_def postMessage_def updWorker_def Let_def)

lemma setSkillLevel_silent:
  "worker s = None \<or> \<not> isReady s \<Longrightarrow> workers (setSkillLevel x s) = workers s"
  by (auto simp add: setSkillLevel_def Let_def split: option.splits)

lemma setHashSize_posted:
  "worker s = Some w \<Longrightarrow> w < length (workers s) \<Longrightarrow> isReady s \<Longrightarrow>
   posted (workers (setHashSize x s) ! w) =
     posted (workers s ! w) @ [SetOption ''Hash'' (NumValue (max 16 (min 4096 \<lfloor>x\<rfloor>)))]"
  by (simp add: setHashSize_def postMessage_def updWorker_def Let_def)

lemma setHashSize_silent:
  "worker s = None \<or> \<not> isReady s \<Longrightarrow> setHashSize x s = s"
  by (auto simp add: setHashSize_def Let_def split: option.splits)

lemma skill_bounds: "0 \<le> currentSkillLevel s \<and> currentSkillLevel s \<le> 20 \<Longrightarrow>
    0 \<le> currentSkillLevel (step e s) \<and> currentSkillLevel (step e s) \<le> 20"
  by (cases e) simp_all

lemma skill_bounds_run:
  "0 \<le> currentSkillLevel s \<and> currentSkillLevel s \<le> 20 \<Longrightarrow>
   0 \<le> currentSkillLevel (run evs s) \<and> currentSkillLevel (run evs s) \<le> 20"
  unfolding run_def by (induction evs arbitrary: s) (simp_all add: skill_bounds)


lemma dispose_idem: "dispose (dispose s) = dispose s"
  by (simp add: dispose_def [of "dispose s"])

lemma dispose_absent: "worker s = None \<Longrightarrow> dispose s = s"
  by (simp add: dispose_def)

lemma dispose_not_alive:
  assumes wf: "wellFormed s"
  shows "\<not> alive (dispose s) n"
proof
  assume a: "alive (dispose s) n"
  from wellFormedD(1) [OF wellFormed_dispose [OF wf] a] show False by simp
qed

lemma dispose_reset:
  assumes wf: "wellFormed s"
  shows "\<not> isReady (dispose s)" "pendingInit (dispose s) = None"
  using wellFormedD(3,4) [OF wellFormed_dispose [OF wf]] by simp_all



lemma pendingInit_run:
  "pendingInit s = Some p \<Longrightarrow> CallDispose \<notin> set evs \<Longrightarrow> pendingInit (run evs s) = Some p"
  unfolding run_def
proof (induction evs arbitrary: s)
  case Nil
  thus ?case by simp
next
  case (Cons e evs)
  from Cons.prems have "e \<noteq> CallDispose" "CallDispose \<notin> set evs" by auto
  with Cons.IH [of "step e s"] pendingInit_step [of s p e] Cons.prems(1)
  show ?case by simp
qed

lemma initialize_again: "initialize (snd (initialize s)) = initialize s"
proof -
  have "pendingInit (snd (initialize s)) = Some (fst (initialize s))" by simp
  from initialize_pending [OF this] show ?thesis by simp
qed

lemma initialize_launches:
  "length (workers (snd (initialize s))) =
     (if pendingInit s = None \<and> \<not> constructorThrows primaryUrl s
      then Suc (length (workers s)) else length (workers s))"
  by (cases "pendingInit s"; cases "constructorThrows primaryUrl s")
     (simp_all add: initialize_pending initialize_fresh initialize_fresh_throws relaunch_fields
        releaseWorker_fields)

lemma sendSearch_posted:
  "worker s = Some w \<Longrightarrow> w < length (workers s) \<Longrightarrow>
   posted (workers (sendSearch sid s) ! w) =
     posted (workers s ! w) @ [PositionFen (fen (searches s ! sid)), goCommand (opts (searches s ! sid))]"
  by (simp add: sendSearch_def Let_def postMessage_def updWorker_def setStatus_def)

lemma getBestMove_ready:
  "worker s = Some w \<Longrightarrow> isReady s \<Longrightarrow>
   snd (getBestMove f os s) =
     sendSearch (length (searches s))
       (s\<lparr>searches := searches s @ [\<lparr>fen = f, opts = os, status = Suspended\<rparr>]\<rparr>)"
  by (simp add: getBestMove_def Let_def afterInitialize_def)

lemma getBestMove_posted:
  assumes "worker s = Some w" "w < length (workers s)" "isReady s"
  shows "posted (workers (snd (getBestMove f os s)) ! w) =
     posted (workers s ! w) @ [PositionFen f, goCommand os]"
  using assms by (simp add: getBestMove_ready sendSearch_posted)




lemma tokens_dropWhile: "whitespaceTokens (dropWhile isSpace s) = whitespaceTokens s"
  by (simp add: whitespaceTokens.simps [of s] whitespaceTokens.simps [of "dropWhile isSpace s"])

lemma tokens_all_space:
  assumes "\<forall>c \<in> set s. isSpace c"
  shows "whitespaceTokens s = []"
proof -
  from assms have d: "dropWhile isSpace s = []" by simp
  show ?thesis by (subst whitespaceTokens.simps) (simp only: d list.case)
qed

lemma tokens_Nil: "whitespaceTokens [] = []"
  by (rule tokens_all_space) simp

lemma tokens_nonspace_hd:
  assumes "s \<noteq> []" "\<not> isSpace (hd s)"
  shows "whitespaceTokens s =
     takeWhile (\<lambda>c. \<not> isSpace c) s # whitespaceTokens (dropWhile (\<lambda>c. \<not> isSpace c) s)"
proof -
  from assms obtain c cs where s: "s = c # cs" and c: "\<not> isSpace c" by (cases s) auto
  show ?thesis unfolding s using c by (subst whitespaceTokens.simps) simp
qed

lemma tokens_append_spaces:
  assumes t: "\<forall>c \<in> set t. isSpace c"
  shows "whitespaceTokens (s @ t) = whitespaceTokens s"
proof (induction s rule: length_induct)
  case (1 s)
  show ?case
  proof (cases "\<forall>c \<in> set s. isSpace c")
    case True
    with t have "\<forall>c \<in> set (s @ t). isSpace c" by auto
    from tokens_all_space [OF this] tokens_all_space [OF True] show ?thesis by simp
  next
    case False
    define u where "u = dropWhile isSpace s"
    from False have une: "u \<noteq> []" by (auto simp: u_def)
    have uh: "\<not> isSpace (hd u)" using hd_dropWhile [of isSpace s] une by (simp add: u_def)
    from False obtain x where "x \<in> set s" "\<not> isSpace x" by blast
    hence ut: "dropWhile isSpace (s @ t) = u @ t" unfolding u_def by (rule dropWhile_append1)
    have lu: "length u \<le> length s" by (simp add: u_def length_dropWhile_le)
    define r where "r = dropWhile (\<lambda>c. \<not> isSpace c) u"
    have lr: "length r < length s"
    proof -
      from une uh have "takeWhile (\<lambda>c. \<not> isSpace c) u \<noteq> []" by (cases u) auto
      hence "0 < length (takeWhile (\<lambda>c. \<not> isSpace c) u)" by simp
      moreover have "length u = length (takeWhile (\<lambda>c. \<not> isSpace c) u) + length r"
        unfolding r_def by (metis takeWhile_dropWhile_id length_append)
      ultimately show ?thesis using lu by arith
    qed
    have lhs: "whitespaceTokens (s @ t) = whitespaceTokens (u @ t)"
      using tokens_dropWhile [of "s @ t"] ut by simp
    have rhs: "whitespaceTokens s = whitespaceTokens u"
      using tokens_dropWhile [of s] by (simp add: u_def)
    have "whitespaceTokens (u @ t) = whitespaceTokens u"
    proof (cases "\<forall>c \<in> set u. \<not> isSpace c")
      case True
      hence tw: "takeWhile (\<lambda>c. \<not> isSpace c) (u @ t) = u"
        and dw: "dropWhile (\<lambda>c. \<not> isSpace c) (u @ t) = t"
        using t by (cases t; simp)+
      have "whitespaceTokens (u @ t) = u # whitespaceTokens t"
        using tokens_nonspace_hd [of "u @ t"] une uh tw dw by simp
      moreover have "whitespaceTokens u = [u]"
      proof -
        from True have "takeWhile (\<lambda>c. \<not> isSpace c) u = u" "dropWhile (\<lambda>c. \<not> isSpace c) u = []"
          by simp_all
        with tokens_nonspace_hd [OF une uh] tokens_Nil show ?thesis by simp
      qed
      ultimately show ?thesis using tokens_all_space [OF t] by simp
    next
      case False
      then obtain y where y: "y \<in> set u" "\<not> \<not> isSpace y" by blast
      have tw: "takeWhile (\<lambda>c. \<not> isSpace c) (u @ t) = takeWhile (\<lambda>c. \<not> isSpace c) u"
        using y by (rule takeWhile_append1)
      have dw: "dropWhile (\<lambda>c. \<not> isSpace c) (u @ t) = r @ t"
        unfolding r_def using y by (rule dropWhile_append1)
      have "whitespaceTokens (u @ t) = takeWhile (\<lambda>c. \<not> isSpace c) u # whitespaceTokens (r @ t)"
        using tokens_nonspace_hd [of "u @ t"] une uh tw dw by simp
      moreover have "whitespaceTokens (r @ t) = whitespaceTokens r"
        using 1 lr by blast
      moreover have "whitespaceTokens u = takeWhile (\<lambda>c. \<not> isSpace c) u # whitespaceTokens r"
        using tokens_nonspace_hd [of u] une uh by (simp add: r_def)
      ultimately show ?thesis by simp
    qed
    with lhs rhs show ?thesis by simp
  qed
qed



lemma split_tokens:
  "s \<noteq> [] \<Longrightarrow> \<not> isSpace (hd s) \<Longrightarrow> \<not> isSpace (last s) \<Longrightarrow> split s = whitespaceTokens s"
proof (induction s rule: length_induct)
  case (1 s)
  note ne = \<open>s \<noteq> []\<close> and h = \<open>\<not> isSpace (hd s)\<close> and l = \<open>\<not> isSpace (last s)\<close>
  define piece where "piece = takeWhile (\<lambda>c. \<not> isSpace c) s"
  define rest where "rest = dropWhile (\<lambda>c. \<not> isSpace c) s"
  have s: "s = piece @ rest" by (simp add: piece_def rest_def)
  have pne: "piece \<noteq> []" using ne h by (cases s) (auto simp: piece_def)
  have tok: "whitespaceTokens s = piece # whitespaceTokens rest"
    using tokens_nonspace_hd [OF ne h] by (simp add: piece_def rest_def)
  show ?case
  proof (cases "rest = []")
    case True
    have "split s = (if rest = [] then [piece] else piece # split (dropWhile isSpace rest))"
      unfolding piece_def rest_def by (subst split.simps) (simp only: Let_def)
    hence "split s = [piece]"
      by (simp only: True if_True simp_thms)
    with tok True tokens_Nil show ?thesis by simp
  next
    case False
    define r where "r = dropWhile isSpace rest"
    have "split s = (if rest = [] then [piece] else piece # split (dropWhile isSpace rest))"
      unfolding piece_def rest_def by (subst split.simps) (simp only: Let_def)
    hence sp: "split s = piece # split r"
      by (simp only: False if_False r_def simp_thms)
    have "last (piece @ rest) = last rest" using False by (rule last_appendR)
    hence lastr: "last rest = last s" by (simp only: s [symmetric])
    have rne: "r \<noteq> []"
    proof
      assume "r = []"
      hence "\<forall>c \<in> set rest. isSpace c" by (simp add: r_def)
      moreover have "last rest \<in> set rest" using False by simp
      ultimately show False using l lastr by simp
    qed
    have rh: "\<not> isSpace (hd r)" using hd_dropWhile [of isSpace rest] rne by (simp add: r_def)
    have rest_split: "rest = takeWhile isSpace rest @ r" by (simp add: r_def)
    have rl: "\<not> isSpace (last r)"
    proof -
      have "last (takeWhile isSpace rest @ r) = last r" using rne by (rule last_appendR)
      hence "last rest = last r" by (simp only: rest_split [symmetric])
      with lastr l show ?thesis by simp
    qed
    have "length r \<le> length rest" by (simp add: r_def length_dropWhile_le)
    moreover have "length s = length piece + length rest"
      by (simp only: s [symmetric] length_append [symmetric])
    moreover have "0 < length piece" using pne by simp
    ultimately have "length r < length s" by arith
    with 1 rne rh rl have "split r = whitespaceTokens r" by blast
    moreover have "whitespaceTokens rest = whitespaceTokens r"
      using tokens_dropWhile [of rest] by (simp add: r_def)
    ultimately show ?thesis using sp tok by simp
  qed
qed

lemma trim_decompose:
  "dropWhile isSpace s = trim s @ rev (takeWhile isSpace (rev (dropWhile isSpace s)))"
proof -
  define v where "v = dropWhile isSpace s"
  have "rev (dropWhile isSpace (rev v)) @ rev (takeWhile isSpace (rev v)) =
        rev (takeWhile isSpace (rev v) @ dropWhile isSpace (rev v))"
    by (simp only: rev_append)
  also have "\<dots> = v" by (simp only: takeWhile_dropWhile_id rev_rev_ident)
  finally show ?thesis by (simp only: trim_def v_def)
qed

lemma tokens_trim: "whitespaceTokens (trim s) = whitespaceTokens s"
proof -
  have sp: "\<forall>c \<in> set (rev (takeWhile isSpace (rev (dropWhile isSpace s)))). isSpace c"
    by (auto dest: set_takeWhileD)
  have "whitespaceTokens (dropWhile isSpace s) = whitespaceTokens (trim s)"
    using tokens_append_spaces [OF sp, of "trim s"] trim_decompose [of s] by simp
  thus ?thesis by (simp add: tokens_dropWhile)
qed

lemma trim_ends:
  assumes "\<exists>c \<in> set s. \<not> isSpace c"
  shows "trim s \<noteq> []" "\<not> isSpace (hd (trim s))" "\<not> isSpace (last (trim s))"
proof -
  define u where "u = dropWhile isSpace s"
  from assms have une: "u \<noteq> []" by (auto simp: u_def)
  have uh: "\<not> isSpace (hd u)" using hd_dropWhile [of isSpace s] une by (simp add: u_def)
  have t: "trim s = rev (dropWhile isSpace (rev u))" by (simp add: trim_def u_def)
  have "hd u \<in> set (rev u)" using une by simp
  with uh have dne: "dropWhile isSpace (rev u) \<noteq> []" by auto
  thus ne: "trim s \<noteq> []" by (simp add: t)
  have "\<not> isSpace (hd (dropWhile isSpace (rev u)))" using hd_dropWhile [OF dne] .
  thus "\<not> isSpace (last (trim s))" using dne by (simp add: t last_rev)
  have "u = trim s @ rev (takeWhile isSpace (rev u))"
    using trim_decompose [of s] by (simp add: u_def)
  hence "hd u = hd (trim s)" using ne by (metis hd_append2)
  with uh show "\<not> isSpace (hd (trim s))" by simp
qed

lemma split_trim_tokens:
  "\<exists>c \<in> set s. \<not> isSpace c \<Longrightarrow> split (trim s) = whitespaceTokens s"
  using split_tokens [OF trim_ends] tokens_trim by simp

lemma tokens_nonempty: "t \<in> set (whitespaceTokens s) \<Longrightarrow> t \<noteq> []"
proof (induction s arbitrary: t rule: length_induct)
  case (1 s)
  show ?case
  proof (cases "\<forall>c \<in> set s. isSpace c")
    case True
    with 1 tokens_all_space [OF True] show ?thesis by simp
  next
    case False
    define u where "u = dropWhile isSpace s"
    from False have une: "u \<noteq> []" by (auto simp: u_def)
    have uh: "\<not> isSpace (hd u)" using hd_dropWhile [of isSpace s] une by (simp add: u_def)
    define r where "r = dropWhile (\<lambda>c. \<not> isSpace c) u"
    have pne: "takeWhile (\<lambda>c. \<not> isSpace c) u \<noteq> []" using une uh by (cases u) auto
    have "length u = length (takeWhile (\<lambda>c. \<not> isSpace c) u) + length r"
      unfolding r_def by (metis takeWhile_dropWhile_id length_append)
    moreover have "length u \<le> length s" by (simp add: u_def length_dropWhile_le)
    moreover have "0 < length (takeWhile (\<lambda>c. \<not> isSpace c) u)" using pne by simp
    ultimately have lr: "length r < length s" by arith
    have "whitespaceTokens s = takeWhile (\<lambda>c. \<not> isSpace c) u # whitespaceTokens r"
      using tokens_dropWhile [of s] tokens_nonspace_hd [OF une uh] by (simp add: u_def r_def)
    with 1 lr pne show ?thesis by auto
  qed
qed

lemma tokens_no_space: "t \<in> set (whitespaceTokens s) \<Longrightarrow> c \<in> set t \<Longrightarrow> \<not> isSpace c"
proof (induction s arbitrary: t rule: length_induct)
  case (1 s)
  show ?case
  proof (cases "\<forall>c \<in> set s. isSpace c")
    case True
    with 1 tokens_all_space [OF True] show ?thesis by simp
  next
    case False
    define u where "u = dropWhile isSpace s"
    from False have une: "u \<noteq> []" by (auto simp: u_def)
    have uh: "\<not> isSpace (hd u)" using hd_dropWhile [of isSpace s] une by (simp add: u_def)
    define r where "r = dropWhile (\<lambda>c. \<not> isSpace c) u"
    have pne: "takeWhile (\<lambda>c. \<not> isSpace c) u \<noteq> []" using une uh by (cases u) auto
    have "length u = length (takeWhile (\<lambda>c. \<not> isSpace c) u) + length r"
      unfolding r_def by (metis takeWhile_dropWhile_id length_append)
    moreover have "length u \<le> length s" by (simp add: u_def length_dropWhile_le)
    moreover have "0 < length (takeWhile (\<lambda>c. \<not> isSpace c) u)" using pne by simp
    ultimately have lr: "length r < length s" by arith
    have "whitespaceTokens s = takeWhile (\<lambda>c. \<not> isSpace c) u # whitespaceTokens r"
      using tokens_dropWhile [of s] tokens_nonspace_hd [OF une uh] by (simp add: u_def r_def)
    with 1 lr show ?thesis by (auto dest: set_takeWhileD)
  qed
qed



lemma indexOf_first: "x \<notin> set pre \<Longrightarrow> indexOf (pre @ x # rest) x = int (length pre)"
  by (induction pre) (auto simp: Let_def)

lemma indexOf_absent: "x \<notin> set xs \<Longrightarrow> indexOf xs x = -1"
  by (induction xs) (auto simp: Let_def)

lemma indexOf_found:
  "indexOf xs x \<noteq> -1 \<Longrightarrow>
   0 \<le> indexOf xs x \<and> nat (indexOf xs x) < length xs \<and> xs ! nat (indexOf xs x) = x"
proof (induction xs)
  case Nil
  thus ?case by simp
next
  case (Cons y ys)
  show ?case
  proof (cases "y = x")
    case True
    thus ?thesis by simp
  next
    case False
    with Cons.prems have ne: "indexOf ys x \<noteq> -1" by (auto simp: Let_def split: if_splits)
    from Cons.IH [OF ne] have ih: "0 \<le> indexOf ys x" "nat (indexOf ys x) < length ys"
      "ys ! nat (indexOf ys x) = x" by simp_all
    have "indexOf (y # ys) x = indexOf ys x + 1" using False ne by (simp add: Let_def)
    moreover have "nat (indexOf ys x + 1) = Suc (nat (indexOf ys x))" using ih(1) by simp
    ultimately show ?thesis using ih by simp
  qed
qed

lemma parseBestMove_move: "move (parseBestMove text) = elemAt (split (trim text)) 1"
  by (simp add: parseBestMove_def Let_def)

lemma parseBestMove_ponder:
  "ponder (parseBestMove text) =
     (if indexOf (split (trim text)) ''ponder'' \<noteq> -1
         \<and> elemAt (split (trim text)) (indexOf (split (trim text)) ''ponder'' + 1) \<noteq> None
         \<and> elemAt (split (trim text)) (indexOf (split (trim text)) ''ponder'' + 1) \<noteq> Some []
      then elemAt (split (trim text)) (indexOf (split (trim text)) ''ponder'' + 1)
      else None)"
  by (simp add: parseBestMove_def Let_def)

lemma elemAt_1: "elemAt xs 1 = (if 1 < length xs then Some (xs ! 1) else None)"
  by (simp add: elemAt_def)

lemma ponder_found:
  assumes parts: "parts = pre @ ''ponder'' # t # post" and pre: "''ponder'' \<notin> set pre"
    and t: "t \<noteq> []"
  shows "indexOf parts ''ponder'' \<noteq> -1"
    and "elemAt parts (indexOf parts ''ponder'' + 1) = Some t"
proof -
  have i: "indexOf parts ''ponder'' = int (length pre)"
    unfolding parts using pre by (rule indexOf_first)
  thus "indexOf parts ''ponder'' \<noteq> -1" by simp
  have "parts ! Suc (length pre) = t" unfolding parts by (simp add: nth_append)
  moreover have "Suc (length pre) < length parts" unfolding parts by simp
  moreover have "nat (int (length pre) + 1) = Suc (length pre)" by simp
  ultimately show "elemAt parts (indexOf parts ''ponder'' + 1) = Some t"
    unfolding i elemAt_def by simp
qed

lemma ponder_shape:
  assumes i: "indexOf parts ''ponder'' \<noteq> -1"
    and e: "elemAt parts (indexOf parts ''ponder'' + 1) \<noteq> None"
  shows "\<exists>pre t post. parts = pre @ ''ponder'' # t # post"
proof -
  define k where "k = nat (indexOf parts ''ponder'')"
  from indexOf_found [OF i] have k: "0 \<le> indexOf parts ''ponder''" "k < length parts"
    "parts ! k = ''ponder''" by (simp_all add: k_def)
  have "nat (indexOf parts ''ponder'' + 1) = Suc k" using k(1) by (simp add: k_def)
  with e have sk: "Suc k < length parts" by (auto simp: elemAt_def split: if_splits)
  have "parts = take k parts @ parts ! k # drop (Suc k) parts"
    using k(2) by (rule id_take_nth_drop)
  moreover have "drop (Suc k) parts = parts ! Suc k # drop (Suc (Suc k)) parts"
    using sk by (rule Cons_nth_drop_Suc [symmetric])
  ultimately have "parts = take k parts @ ''ponder'' # parts ! Suc k # drop (Suc (Suc k)) parts"
    using k(3) by simp
  thus ?thesis by blast
qed

lemma startsWith_nonspace:
  assumes "startsWith text ''bestmove''"
  shows "\<exists>c \<in> set text. \<not> isSpace c"
proof -
  from assms obtain zs where "text = ''bestmove'' @ zs"
    unfolding startsWith_def by (rule prefixE)
  hence "CHR ''b'' \<in> set text" by simp
  moreover have "\<not> isSpace CHR ''b''" by (simp add: isSpace_def)
  ultimately show ?thesis by blast
qed

lemma onMessage_resolves:
  assumes "startsWith text ''bestmove''" "worker s = Some w" "sid < length (searches s)"
  shows "status (searches (onMessage sid text s) ! sid) = Resolved (parseBestMove text)"
proof -
  from assms(1) have "text \<noteq> []" unfolding startsWith_def by auto
  thus ?thesis using assms
    by (simp add: onMessage_def setStatus_def removeMessageListener_def updWorker_def)
qed



lemma searching_fields:
  "worker (snd (getBestMove ''startpos'' None readyEngine)) = Some 0"
  "length (searches (snd (getBestMove ''startpos'' None readyEngine))) = 1"
  "status (searches (snd (getBestMove ''startpos'' None readyEngine)) ! 0) = Searching"
  by (simp_all add: getBestMove_ready [of readyEngine 0] readyEngine_fields sendSearch_def
      Let_def setStatus_def postMessage_def updWorker_def)



lemma afterInitialize_absent:
  "worker s = None \<Longrightarrow> sid < length (searches s) \<Longrightarrow>
   status (searches (afterInitialize sid s) ! sid) =
     Rejected (Error ''Stockfish worker failed to initialize'')"
  by (simp add: afterInitialize_def setStatus_def)

lemma no_move_token:
  assumes sw: "startsWith text ''bestmove''" and one: "length (whitespaceTokens text) \<le> 1"
  shows "parseBestMove text = \<lparr>move = None, ponder = None\<rparr>"
proof -
  have parts: "split (trim text) = whitespaceTokens text"
    using startsWith_nonspace [OF sw] by (rule split_trim_tokens)
  have m: "move (parseBestMove text) = None"
    unfolding parseBestMove_move parts elemAt_1 using one by simp
  have "\<nexists>pre t post. whitespaceTokens text = pre @ ''ponder'' # t # post"
  proof
    assume "\<exists>pre t post. whitespaceTokens text = pre @ ''ponder'' # t # post"
    then obtain pre t post where "whitespaceTokens text = pre @ ''ponder'' # t # post" by blast
    hence "2 \<le> length (whitespaceTokens text)" by simp
    with one show False by simp
  qed
  hence "ponder (parseBestMove text) = None"
    using ponder_shape [of "whitespaceTokens text"] unfolding parseBestMove_ponder parts by auto
  with m show ?thesis by (cases "parseBestMove text") simp
qed



lemma getBestMove_absent:
  assumes w: "worker s = None" and p: "pendingInit s = None"
    and c: "\<not> constructorThrows primaryUrl s"
  shows "status (searches (snd (getBestMove f os s)) ! length (searches s)) = Suspended"
    and "worker (snd (getBestMove f os s)) = Some (length (workers s))"
  using w p c
  by (simp_all add: getBestMove_def initialize_def initializeWorker_def releaseWorker_def
      startWorker_def constructorThrows_def await_def Let_def)

lemma getBestMove_absent_throws:
  assumes w: "worker s = None" and p: "pendingInit s = None"
    and c: "constructorThrows primaryUrl s"
  shows "status (searches (snd (getBestMove f os s)) ! length (searches s)) =
           Rejected ConstructorError"
    and "worker (snd (getBestMove f os s)) = None"
  using w p c
  by (simp_all add: getBestMove_def initialize_def initializeWorker_def releaseWorker_def
      constructorThrows_def await_def setStatus_def Let_def)

lemma searches_dispose [simp]: "searches (dispose s) = searches s"
  by (simp add: dispose_def terminate_def updWorker_def split: option.splits)


lemma handleMessage_no_readyok:
  "\<not> includes_str t ''readyok'' \<Longrightarrow>
   isReady (handleMessage n t s) = isReady s \<and>
   resolveCounts (handleMessage n t s) = resolveCounts s"
  by (simp add: handleMessage_def split: option.splits)

lemma callListener_no_readyok:
  "\<not> includes_str t ''readyok'' \<Longrightarrow>
   isReady (callListener l t s) = isReady s \<and>
   resolveCounts (callListener l t s) = resolveCounts s"
  by (cases l) (simp_all add: handleMessage_no_readyok)

lemma dispatchMessage_no_readyok:
  assumes "\<not> includes_str (textOf d) ''readyok''"
  shows "isReady (dispatchMessage w d s) = isReady s"
    and "resolveCounts (dispatchMessage w d s) = resolveCounts s"
  using assms by (simp_all add: dispatchMessage_def fold_frame callListener_no_readyok)

lemma resolveCounts_setHashSize [simp]: "resolveCounts (setHashSize x s) = resolveCounts s"
  by (simp add: setHashSize_def Let_def split: option.splits)

lemma resolveCounts_setOption [simp]: "resolveCounts (setOption n v s) = resolveCounts s"
  by (simp add: setOption_def split: option.splits)

lemma pendingSession_step:
  assumes p: "pendingSession s"
    and e: "\<And>w t. e = WorkerMessage w (StringData t) \<Longrightarrow> \<not> includes_str t ''readyok''"
  shows "pendingSession (step e s)"
proof (cases e)
  case CallInitialize
  thus ?thesis using p by (auto simp: pendingSession_def resolveCounts_initialize)
next
  case (CallGetBestMove f os)
  thus ?thesis using p resolveCounts_getBestMove [of f os s] by (auto simp: pendingSession_def)
next
  case (WorkerMessage w d)
  have "\<not> includes_str (textOf d) ''readyok''"
  proof (cases d)
    case (StringData t)
    with e WorkerMessage show ?thesis by simp
  next
    case OtherData
    thus ?thesis by (simp add: includes_str_def)
  qed
  from dispatchMessage_no_readyok [OF this] WorkerMessage p show ?thesis
    by (simp add: pendingSession_def)
next
  case CallDispose
  have "\<not> isReady (dispose s)"
    using p by (simp add: pendingSession_def dispose_def split: option.splits)
  thus ?thesis using p CallDispose by (simp add: pendingSession_def)
qed (use p in \<open>simp_all add: pendingSession_def\<close>)

lemma pendingSession_run:
  assumes "pendingSession s"
    and "\<And>w t. WorkerMessage w (StringData t) \<in> set evs \<Longrightarrow> \<not> includes_str t ''readyok''"
  shows "pendingSession (run evs s)"
  using assms unfolding run_def
proof (induction evs arbitrary: s)
  case Nil
  thus ?case by simp
next
  case (Cons e evs)
  have "pendingSession (step e s)"
  proof (rule pendingSession_step [OF Cons.prems(1)])
    fix w t assume "e = WorkerMessage w (StringData t)"
    hence "WorkerMessage w (StringData t) \<in> set (e # evs)" by simp
    thus "\<not> includes_str t ''readyok''" by (rule Cons.prems(2))
  qed
  moreover have "\<not> includes_str t ''readyok''"
    if "WorkerMessage w (StringData t) \<in> set evs" for w t
    using that Cons.prems(2) [of w t] by simp
  ultimately have "pendingSession (fold step evs (step e s))" by (rule Cons.IH)
  thus ?case by simp
qed



lemma soundD:
  assumes "sound s"
  shows "alive s n \<Longrightarrow> worker s = Some n"
    and "worker s = Some w \<Longrightarrow> w < length (workers s)"
    and "worker s = None \<Longrightarrow> \<not> isReady s"
  using assms unfolding sound_def by blast+

lemma sound_mono:
  assumes so: "sound s"
    and al: "\<And>n. alive s' n \<Longrightarrow> alive s n"
    and w: "worker s' = worker s"
    and len: "length (workers s') = length (workers s)"
    and r: "worker s = None \<Longrightarrow> \<not> isReady s'"
  shows "sound s'"
  unfolding sound_def w len
proof (intro conjI allI impI)
  fix n assume "alive s' n"
  hence "alive s n" by (rule al)
  thus "worker s = Some n" by (rule soundD(1) [OF so])
next
  fix x assume "worker s = Some x" thus "x < length (workers s)" by (rule soundD(2) [OF so])
next
  assume "worker s = None" thus "\<not> isReady s'" by (rule r)
qed

lemma sound_relaunch:
  assumes so: "sound s"
  shows "sound (relaunch p url b s)"
  unfolding sound_def relaunch_fields
proof (intro conjI allI impI)
  fix n assume a: "alive (relaunch p url b s) n"
  from alive_relaunch [OF a soundD(1) [OF so]] show "Some (length (workers s)) = Some n" by simp
next
  fix w assume "Some (length (workers s)) = Some w"
  thus "w < Suc (length (workers s))" by simp
next
  assume "Some (length (workers s)) = None"
  thus "\<not> isReady s" by simp
qed

lemma alive_releaseWorker:
  assumes a: "alive (releaseWorker s) n" and cur: "\<And>n. alive s n \<Longrightarrow> worker s = Some n"
  shows False
proof (cases "worker s")
  case None
  hence "releaseWorker s = s" by (simp add: releaseWorker_def)
  with a have "alive s n" by simp
  from cur [OF this] None show False by simp
next
  case (Some w)
  from a have lt: "n < length (workers s)" by (simp add: alive_def releaseWorker_fields)
  show False
  proof (cases "n = w")
    case True
    thus False using a Some lt
      by (simp add: alive_def releaseWorker_def terminate_def updWorker_def)
  next
    case False
    hence "alive s n" using a Some lt
      by (simp add: alive_def releaseWorker_def terminate_def updWorker_def)
    from cur [OF this] Some False show False by simp
  qed
qed

lemma sound_releaseWorker:
  assumes so: "sound s" and nr: "\<not> isReady s"
  shows "sound (releaseWorker s)"
  unfolding sound_def releaseWorker_fields
proof (intro conjI allI impI)
  fix n assume "alive (releaseWorker s) n"
  from alive_releaseWorker [OF this soundD(1) [OF so]] show "None = Some n" ..
next
  fix w :: nat assume "None = Some w" thus "w < length (workers s)" by simp
next
  show "\<not> isReady s" by (rule nr)
qed

lemma sound_updates [simp]:
  "sound (s\<lparr>initPromises := ps\<rparr>) = sound s"
  "sound (s\<lparr>searches := qs\<rparr>) = sound s"
  "sound (s\<lparr>pendingInit := q\<rparr>) = sound s"
  "sound (s\<lparr>throwingScripts := fs\<rparr>) = sound s"
  by (simp_all add: sound_def alive_def)

lemma lifecycleD:
  assumes "lifecycle s' = lifecycle s"
  shows "worker s' = worker s" "isReady s' = isReady s" "pendingInit s' = pendingInit s"
    "length (workers s') = length (workers s)"
    "map channel (workers s') = map channel (workers s)"
    "resolveCounts s' = resolveCounts s"
  using assms by (auto simp: lifecycle_def dest: map_eq_imp_length_eq)

lemma lifecycle_channel:
  assumes l: "lifecycle s' = lifecycle s" and n: "n < length (workers s)"
  shows "terminated (workers s' ! n) = terminated (workers s ! n)"
    and "handshakeListeners s' n = handshakeListeners s n"
    and "errorListeners (workers s' ! n) = errorListeners (workers s ! n)"
proof -
  have "channel (workers s' ! n) = channel (workers s ! n)"
    using lifecycleD(5) [OF l] lifecycleD(4) [OF l] n by (metis nth_map)
  thus "terminated (workers s' ! n) = terminated (workers s ! n)"
    and "handshakeListeners s' n = handshakeListeners s n"
    and "errorListeners (workers s' ! n) = errorListeners (workers s ! n)"
    by (simp_all add: channel_def handshakeListeners_def)
qed

lemma lifecycle_alive:
  assumes l: "lifecycle s' = lifecycle s"
  shows "alive s' n = alive s n"
proof (cases "n < length (workers s)")
  case True
  thus ?thesis using lifecycle_channel(1) [OF l True] lifecycleD(4) [OF l] by (simp add: alive_def)
next
  case False
  thus ?thesis using lifecycleD(4) [OF l] by (simp add: alive_def)
qed

lemma channel_closure: "map channel ws = map (\<lambda>(a, b, c, d, e, f). (c, e, f)) (map closure ws)"
  by (induction ws) (simp_all add: channel_def closure_def)

lemma lifecycle_handshake:
  assumes h: "handshake s' = handshake s" and r: "resolveCounts s' = resolveCounts s"
  shows "lifecycle s' = lifecycle s"
  unfolding lifecycle_def channel_closure handshakeD(1,2,3,7) [OF h] r ..

lemma sessionInv_lifecycle:
  assumes l: "lifecycle s' = lifecycle s" and inv: "sessionInv s"
  shows "sessionInv s'"
proof -
  note al = lifecycle_alive [OF l]
  have aln: "alive s n \<Longrightarrow> n < length (workers s)" for n by (simp add: alive_def)
  have wf: "sound s'"
    using inv unfolding sessionInv_def sound_def al lifecycleD(1,2,4) [OF l] by blast
  have lo: "listenersOk s'"
    unfolding listenersOk_def al
  proof (intro allI impI)
    fix n assume a: "alive s n"
    from inv a have "set (handshakeListeners s n) \<subseteq> {HandleMessage n} \<and>
        set (errorListeners (workers s ! n)) \<subseteq> {n}"
      unfolding sessionInv_def listenersOk_def by blast
    thus "set (handshakeListeners s' n) \<subseteq> {HandleMessage n} \<and>
        set (errorListeners (workers s' ! n)) \<subseteq> {n}"
      unfolding lifecycle_channel(2,3) [OF l aln [OF a]] .
  qed
  have rq: "readyQuiet s'"
    unfolding readyQuiet_def al lifecycleD(2) [OF l]
  proof (intro allI impI)
    fix n assume r: "isReady s" and a: "alive s n"
    from inv r a have "handshakeListeners s n = [] \<and> errorListeners (workers s ! n) = []"
      unfolding sessionInv_def readyQuiet_def by blast
    thus "handshakeListeners s' n = [] \<and> errorListeners (workers s' ! n) = []"
      unfolding lifecycle_channel(2,3) [OF l aln [OF a]] .
  qed
  have co: "countsOk s'"
    using inv unfolding sessionInv_def countsOk_def lifecycleD(2,6) [OF l] by blast
  have st: "started s'"
  proof -
    from inv have "pendingInit s = None \<longrightarrow> length (workers s) = 0"
      unfolding sessionInv_def started_def by simp
    hence "pendingInit s' = None \<longrightarrow> length (workers s') = 0"
      unfolding lifecycleD(3,4) [OF l] .
    thus ?thesis unfolding started_def by simp
  qed
  from wf lo rq co st show ?thesis unfolding sessionInv_def by blast
qed

lemma sessionInv_handshake:
  "handshake s' = handshake s \<Longrightarrow> resolveCounts s' = resolveCounts s \<Longrightarrow> sessionInv s \<Longrightarrow>
   sessionInv s'"
  by (rule sessionInv_lifecycle [OF lifecycle_handshake])



lemma lifecycle_updWorker:
  "(\<And>l. channel (f l) = channel l) \<Longrightarrow> lifecycle (updWorker w f s) = lifecycle s"
  by (simp add: lifecycle_def updWorker_def map_update_same resolveCounts_def)

lemma lifecycle_setSkillLevel: "lifecycle (setSkillLevel x s) = lifecycle s"
  by (simp add: lifecycle_def setSkillLevel_def Let_def postMessage_def updWorker_def
      map_update_same channel_def resolveCounts_def split: option.splits)

lemma lifecycle_searches_update: "lifecycle (s\<lparr>searches := qs\<rparr>) = lifecycle s"
  by (simp add: lifecycle_def resolveCounts_def)

lemma sessionInvD:
  assumes "sessionInv s"
  shows "sound s" "listenersOk s" "readyQuiet s" "countsOk s" "started s"
  using assms unfolding sessionInv_def by blast+

lemma sessionInvI:
  "sound s \<Longrightarrow> listenersOk s \<Longrightarrow> readyQuiet s \<Longrightarrow> countsOk s \<Longrightarrow> started s \<Longrightarrow> sessionInv s"
  unfolding sessionInv_def by blast

lemma relaunch_listeners:
  "handshakeListeners (relaunch p url b s) (length (workers s)) =
     [HandleMessage (length (workers s))]"
  "errorListeners (workers (relaunch p url b s) ! length (workers s)) = [length (workers s)]"
  by (simp_all add: handshakeListeners_def relaunch_new)

lemma launch_invariant:
  assumes so: "sound s" and co: "countsOk s" and nr: "\<not> isReady s"
  shows "sound (snd (initializeWorker p url b s))"
    and "listenersOk (snd (initializeWorker p url b s))"
    and "readyQuiet (snd (initializeWorker p url b s))"
    and "countsOk (snd (initializeWorker p url b s))"
proof -
  show "readyQuiet (snd (initializeWorker p url b s))"
    using nr by (simp add: readyQuiet_def initializeWorker_frame)
  show "countsOk (snd (initializeWorker p url b s))"
    using co by (simp add: countsOk_def initializeWorker_frame)
  show "sound (snd (initializeWorker p url b s))"
    using sound_relaunch [OF so] sound_releaseWorker [OF so nr]
    by (cases "constructorThrows url s")
       (simp_all add: initializeWorker_returns initializeWorker_throws)
  show "listenersOk (snd (initializeWorker p url b s))"
  proof (cases "constructorThrows url s")
    case True
    have "\<not> alive (releaseWorker s) n" for n
      using alive_releaseWorker [OF _ soundD(1) [OF so]] by blast
    thus ?thesis using True by (simp add: initializeWorker_throws listenersOk_def)
  next
    case False
    have "listenersOk (relaunch p url b s)"
      unfolding listenersOk_def
    proof (intro allI impI)
      fix n assume "alive (relaunch p url b s) n"
      hence n: "n = length (workers s)" using soundD(1) [OF so] by (rule alive_relaunch)
      show "set (handshakeListeners (relaunch p url b s) n) \<subseteq> {HandleMessage n} \<and>
          set (errorListeners (workers (relaunch p url b s) ! n)) \<subseteq> {n}"
        unfolding n relaunch_listeners by simp
    qed
    thus ?thesis using False by (simp add: initializeWorker_returns)
  qed
qed

lemma started_initializeWorker:
  "pendingInit s \<noteq> None \<Longrightarrow> started (snd (initializeWorker p url b s))"
  by (auto simp: started_def initializeWorker_frame)

lemma sessionInv_initializeWorker:
  assumes inv: "sessionInv s" and nr: "\<not> isReady s" and pi: "pendingInit s \<noteq> None"
  shows "sessionInv (snd (initializeWorker p url b s))"
  using launch_invariant [OF sessionInvD(1) [OF inv] sessionInvD(4) [OF inv] nr]
    started_initializeWorker [OF pi]
  by (rule sessionInvI)

lemma sessionInv_not_started:
  assumes inv: "sessionInv s" and p: "pendingInit s = None"
  shows "worker s = None" "\<not> isReady s"
proof -
  from sessionInvD(5) [OF inv] p have e: "workers s = []" by (simp add: started_def)
  show w: "worker s = None"
  proof (cases "worker s")
    case (Some w)
    from soundD(2) [OF sessionInvD(1) [OF inv] Some] e show ?thesis by simp
  qed simp
  from soundD(3) [OF sessionInvD(1) [OF inv] w] show "\<not> isReady s" .
qed

lemma initialize_fresh_state:
  assumes p: "pendingInit s = None"
  defines "s1 \<equiv> s\<lparr>initPromises := initPromises s @
      [\<lparr>resolveCalls = 0, rejected = None, reactions = []\<rparr>]\<rparr>"
  defines "s2 \<equiv> snd (initializeWorker (length (initPromises s)) primaryUrl False s1)"
  shows "worker (snd (initialize s)) = worker s2"
    and "isReady (snd (initialize s)) = isReady s2"
    and "workers (snd (initialize s)) = workers s2"
    and "resolveCounts (snd (initialize s)) = resolveCounts s2"
proof -
  have rc: "map resolveCalls (xs[i := (xs ! i)\<lparr>rejected := r\<rparr>]) = map resolveCalls xs"
    for xs :: "promise list" and i r
    by (rule map_update_same) simp
  show "worker (snd (initialize s)) = worker s2"
    and "isReady (snd (initialize s)) = isReady s2"
    and "workers (snd (initialize s)) = workers s2"
    and "resolveCounts (snd (initialize s)) = resolveCounts s2"
    using p unfolding s1_def s2_def
    by (simp_all add: initialize_def Let_def split_beta resolveCounts_def rc
        split: option.splits)
qed

lemma sessionInv_initialize:
  assumes inv: "sessionInv s"
  shows "sessionInv (snd (initialize s))"
proof (cases "pendingInit s")
  case (Some p)
  thus ?thesis using inv by (simp add: initialize_pending)
next
  case None
  define s1 where "s1 = s\<lparr>initPromises := initPromises s @
      [\<lparr>resolveCalls = 0, rejected = None, reactions = []\<rparr>]\<rparr>"
  define s2 where "s2 = snd (initializeWorker (length (initPromises s)) primaryUrl False s1)"
  have nr: "\<not> isReady s1" using sessionInv_not_started(2) [OF inv None] by (simp add: s1_def)
  have so1: "sound s1" using sessionInvD(1) [OF inv] by (simp add: s1_def)
  have "resolveCounts s1 = resolveCounts s @ [0]" by (simp add: s1_def resolveCounts_def)
  hence co1: "countsOk s1" using sessionInvD(4) [OF inv] nr
    by (simp add: countsOk_def s1_def)
  note l = launch_invariant [OF so1 co1 nr, of "length (initPromises s)" primaryUrl False,
      folded s2_def]
  note fs = initialize_fresh_state [OF None, folded s1_def, folded s2_def]
  have al: "alive (snd (initialize s)) n = alive s2 n" for n
    by (simp add: alive_def fs(3))
  have hl: "handshakeListeners (snd (initialize s)) n = handshakeListeners s2 n" for n
    by (simp add: handshakeListeners_def fs(3))
  show ?thesis
  proof (rule sessionInvI)
    show "sound (snd (initialize s))"
      using l(1) unfolding sound_def al fs(1,2,3) .
    show "listenersOk (snd (initialize s))"
      using l(2) unfolding listenersOk_def al hl fs(3) .
    show "readyQuiet (snd (initialize s))"
      using l(3) unfolding readyQuiet_def al hl fs(2,3) .
    show "countsOk (snd (initialize s))"
      using l(4) unfolding countsOk_def fs(2,4) .
    show "started (snd (initialize s))"
      by (simp add: started_def)
  qed
qed

lemma sessionInv_timerFires:
  assumes inv: "sessionInv s"
  shows "sessionInv (timerFires n s)"
proof (cases "n < length (workers s) \<and> timeoutPending (workers s ! n)")
  case False
  hence "timerFires n s = s" by (auto simp: timerFires_def)
  thus ?thesis using inv by simp
next
  case True
  define s1 where "s1 = updWorker n (\<lambda>l. l\<lparr>timeoutPending := False\<rparr>) s"
  have "lifecycle s1 = lifecycle s"
    unfolding s1_def by (rule lifecycle_updWorker) (simp add: channel_def)
  hence inv1: "sessionInv s1" using inv by (rule sessionInv_lifecycle)
  have "workers s \<noteq> []" using True by auto
  with sessionInvD(5) [OF inv] have "pendingInit s \<noteq> None" unfolding started_def by blast
  hence pi: "pendingInit s1 \<noteq> None" by (simp add: s1_def)
  have "sessionInv (timeoutCallback n s1)"
    unfolding timeoutCallback_def Let_def
    using inv1 sessionInv_initializeWorker [OF inv1 _ pi] by simp
  thus ?thesis using True by (simp add: timerFires_def s1_def)
qed

lemma sessionInv_handleError:
  assumes "sessionInv s \<and> \<not> isReady s \<and> pendingInit s \<noteq> None"
  shows "sessionInv (handleError k s) \<and> \<not> isReady (handleError k s)
         \<and> pendingInit (handleError k s) \<noteq> None"
  using assms by (simp add: handleError_def Let_def sessionInv_initializeWorker
      initializeWorker_frame)

lemma sessionInv_dispatchError:
  assumes inv: "sessionInv s"
  shows "sessionInv (dispatchError w s)"
proof (cases "alive s w")
  case False
  hence "dispatchError w s = s" by (auto simp: dispatchError_def alive_def)
  thus ?thesis using inv by simp
next
  case True
  show ?thesis
  proof (cases "isReady s")
    case r: True
    from sessionInvD(3) [OF inv] r True have "errorListeners (workers s ! w) = []"
      unfolding readyQuiet_def by blast
    hence "dispatchError w s = s" by (simp add: dispatchError_def)
    thus ?thesis using inv by simp
  next
    case nr: False
    have "workers s \<noteq> []" using True by (auto simp: alive_def)
    with sessionInvD(5) [OF inv] have pi: "pendingInit s \<noteq> None" unfolding started_def by blast
    let ?P = "\<lambda>t. sessionInv t \<and> \<not> isReady t \<and> pendingInit t \<noteq> None"
    have "?P (fold (\<lambda>k t. if k \<in> set (errorListeners (workers t ! w))
                        then handleError k t else t) (errorListeners (workers s ! w)) s)"
    proof (rule fold_inv [where P = ?P])
      show "?P s" using inv nr pi by blast
    next
      fix k t assume "?P t"
      thus "?P (if k \<in> set (errorListeners (workers t ! w)) then handleError k t else t)"
        using sessionInv_handleError [of t k] by simp
    qed
    thus ?thesis using True by (simp add: dispatchError_def alive_def)
  qed
qed

lemma parts_initPromises_update [simp]:
  "listenersOk (s\<lparr>initPromises := ps\<rparr>) = listenersOk s"
  "readyQuiet (s\<lparr>initPromises := ps\<rparr>) = readyQuiet s"
  "started (s\<lparr>initPromises := ps\<rparr>) = started s"
  by (simp_all add: listenersOk_def readyQuiet_def started_def handshakeListeners_def)

lemma sessionInv_counts:
  assumes h: "handshake s' = handshake s" and inv: "sessionInv s" and co: "countsOk s'"
  shows "sessionInv s'"
proof -
  define t where "t = s'\<lparr>initPromises := initPromises s\<rparr>"
  have "handshake t = handshake s" using h by (simp add: t_def handshake_def)
  moreover have "resolveCounts t = resolveCounts s" by (simp add: t_def resolveCounts_def)
  ultimately have "sessionInv t" using inv by (rule sessionInv_handshake)
  hence "sound s'" "listenersOk s'" "readyQuiet s'" "started s'"
    unfolding sessionInv_def t_def by simp_all
  with co show ?thesis unfolding sessionInv_def by blast
qed



lemma filter_removeAll_only:
  "set (filter P xs) \<subseteq> {x} \<Longrightarrow> filter P (removeAll x xs) = []"
  by (induction xs) (auto split: if_splits)

lemma removeAll_only: "set xs \<subseteq> {x} \<Longrightarrow> removeAll x xs = []"
  by (induction xs) auto

lemma counts_after_resolve:
  assumes z: "\<forall>c \<in> set xs. c = (0::nat)"
  shows "\<forall>c \<in> set (xs[p := Suc (xs ! p)]). c \<le> 1"
proof (cases "p < length xs")
  case True
  hence "xs ! p = 0" using z by simp
  moreover have "set (xs[p := Suc (xs ! p)]) \<subseteq> insert (Suc (xs ! p)) (set xs)"
    by (rule set_update_subset_insert)
  ultimately show ?thesis using z by auto
next
  case False
  hence "xs[p := Suc (xs ! p)] = xs" by (simp add: list_update_beyond)
  thus ?thesis using z by auto
qed

lemma sessionInv_handleMessage:
  assumes inv: "sessionInv t" and cur: "worker t = Some w" and al: "alive t w"
    and mem: "HandleMessage w \<in> set (messageListeners (workers t ! w))"
  shows "sessionInv (handleMessage w txt t)"
proof (cases "txt \<noteq> [] \<and> \<not> includes_str txt ''uciok'' \<and> includes_str txt ''readyok''")
  case False
  hence "handshake (handleMessage w txt t) = handshake t"
    and "resolveCounts (handleMessage w txt t) = resolveCounts t"
    by (auto simp: handleMessage_def split: option.splits)
  thus ?thesis using inv by (rule sessionInv_handshake)
next
  case True
  have wl: "w < length (workers t)" using al by (simp add: alive_def)
  have hl: "HandleMessage w \<in> set (handshakeListeners t w)"
    using mem by (simp add: handshakeListeners_def)
  have nr: "\<not> isReady t"
  proof
    assume "isReady t"
    with sessionInvD(3) [OF inv] al have "handshakeListeners t w = []"
      unfolding readyQuiet_def by blast
    with hl show False by simp
  qed
  have zero: "\<forall>c \<in> set (resolveCounts t). c = 0"
    using sessionInvD(4) [OF inv] nr unfolding countsOk_def by blast
  from sessionInvD(2) [OF inv] al
  have own: "set (handshakeListeners t w) \<subseteq> {HandleMessage w}"
    "set (errorListeners (workers t ! w)) \<subseteq> {w}"
    unfolding listenersOk_def by blast+
  define t2 where "t2 = removeErrorListener w w (removeMessageListener w (HandleMessage w)
      ((updWorker w (\<lambda>l. l\<lparr>timeoutPending := False\<rparr>) t)\<lparr>isReady := True\<rparr>))"
  obtain p where res: "handleMessage w txt t = resolvePromise p t2"
    using True cur by (simp add: handleMessage_def Let_def t2_def)
  have f1: "worker t2 = Some w" "isReady t2" "pendingInit t2 = pendingInit t"
    "length (workers t2) = length (workers t)" "resolveCounts t2 = resolveCounts t"
    using cur
    by (simp_all add: t2_def removeErrorListener_def removeMessageListener_def)
  have f2: "alive t2 n = alive t n" for n
    by (simp add: t2_def removeErrorListener_def removeMessageListener_def alive_updWorker)
  have wk: "workers t2 ! w = (workers t ! w)
      \<lparr>timeoutPending := False,
       messageListeners := removeAll (HandleMessage w) (messageListeners (workers t ! w)),
       errorListeners := removeAll w (errorListeners (workers t ! w))\<rparr>"
    using wl by (simp add: t2_def removeErrorListener_def removeMessageListener_def updWorker_def)
  have f3: "handshakeListeners t2 w = []" "errorListeners (workers t2 ! w) = []"
    using own filter_removeAll_only [of isHandshake "messageListeners (workers t ! w)" "HandleMessage w"]
      removeAll_only [of "errorListeners (workers t ! w)" w]
    by (simp_all add: handshakeListeners_def wk)
  have only: "n = w" if "alive t2 n" for n
  proof -
    from that have "alive t n" by (simp add: f2)
    from soundD(1) [OF sessionInvD(1) [OF inv] this] cur show ?thesis by simp
  qed
  have inv2: "sessionInv t2"
  proof (rule sessionInvI)
    show "sound t2"
    proof (rule sound_mono [where s = t])
      show "sound t" by (rule sessionInvD(1) [OF inv])
    qed (simp_all add: f1 f2 cur)
    show "listenersOk t2"
      unfolding listenersOk_def
    proof (intro allI impI)
      fix n assume "alive t2 n"
      hence n: "n = w" by (rule only)
      show "set (handshakeListeners t2 n) \<subseteq> {HandleMessage n} \<and>
          set (errorListeners (workers t2 ! n)) \<subseteq> {n}"
        unfolding n f3 by simp
    qed
    show "readyQuiet t2"
      unfolding readyQuiet_def
    proof (intro allI impI)
      fix n assume "alive t2 n"
      hence n: "n = w" by (rule only)
      show "handshakeListeners t2 n = [] \<and> errorListeners (workers t2 ! n) = []"
        unfolding n f3 by simp
    qed
    show "countsOk t2" using zero by (auto simp: countsOk_def f1)
    show "started t2"
      using sessionInvD(5) [OF inv] f1(4) by (auto simp: started_def f1(3))
  qed
  have "countsOk (resolvePromise p t2)"
    using counts_after_resolve [of "resolveCounts t2" p] zero f1(2)
    by (simp add: countsOk_def resolveCounts_resolvePromise f1(5))
  with handshake_resolvePromise inv2 have "sessionInv (resolvePromise p t2)"
    by (rule sessionInv_counts)
  thus ?thesis by (simp add: res)
qed



lemma sessionInv_callListener:
  assumes P: "sessionInv t \<and> worker t = Some w \<and> alive t w"
    and mem: "l \<in> set (messageListeners (workers t ! w))"
  shows "sessionInv (callListener l txt t) \<and> worker (callListener l txt t) = Some w
         \<and> alive (callListener l txt t) w"
proof (cases l)
  case (OnMessage sid)
  from P have "sessionInv t" by blast
  with handshake_onMessage resolveCounts_onMessage have "sessionInv (onMessage sid txt t)"
    by (rule sessionInv_handshake)
  thus ?thesis using P OnMessage by simp
next
  case (HandleMessage k)
  from P have inv: "sessionInv t" and cur: "worker t = Some w" and al: "alive t w" by blast+
  from mem HandleMessage have "HandleMessage k \<in> set (handshakeListeners t w)"
    by (simp add: handshakeListeners_def)
  moreover from sessionInvD(2) [OF inv] al
  have "set (handshakeListeners t w) \<subseteq> {HandleMessage w}" unfolding listenersOk_def by blast
  ultimately have k: "k = w" by auto
  have "sessionInv (handleMessage w txt t)"
    using inv cur al mem [unfolded HandleMessage k] by (rule sessionInv_handleMessage)
  thus ?thesis using P HandleMessage k by simp
qed

lemma sessionInv_dispatchMessage:
  assumes inv: "sessionInv s"
  shows "sessionInv (dispatchMessage w d s)"
proof (cases "alive s w")
  case False
  hence "dispatchMessage w d s = s" by (auto simp: dispatchMessage_def alive_def)
  thus ?thesis using inv by simp
next
  case True
  from soundD(1) [OF sessionInvD(1) [OF inv] True] have cur: "worker s = Some w" .
  let ?P = "\<lambda>t. sessionInv t \<and> worker t = Some w \<and> alive t w"
  have "?P (fold (\<lambda>l t. if l \<in> set (messageListeners (workers t ! w))
                        then callListener l (textOf d) t else t)
             (messageListeners (workers s ! w)) s)"
  proof (rule fold_inv [where P = ?P])
    show "?P s" using inv cur True by blast
  next
    fix l t assume "?P t"
    thus "?P (if l \<in> set (messageListeners (workers t ! w))
              then callListener l (textOf d) t else t)"
      using sessionInv_callListener [of t w l "textOf d"] by simp
  qed
  thus ?thesis using True by (simp add: dispatchMessage_def alive_def)
qed

lemma sessionInv_await:
  assumes b: "\<And>t. sessionInv t \<Longrightarrow> sessionInv (body t)" and inv: "sessionInv s"
  shows "sessionInv (await p k body s)"
proof (cases "rejected (initPromises s ! p)")
  case (Some e)
  hence "await p k body s = setStatus (searchOf k) (Rejected e) s" by (simp add: await_def)
  thus ?thesis
    using sessionInv_handshake [OF handshake_setStatus resolveCounts_setStatus inv] by simp
next
  case None
  show ?thesis
  proof (cases "0 < resolveCalls (initPromises s ! p)")
    case True
    thus ?thesis using b [OF inv] None by (simp add: await_def)
  next
    case False
    have "lifecycle (await p k body s) = lifecycle s"
      using False None by (simp add: await_def lifecycle_def resolveCounts_def map_update_same)
    thus ?thesis using inv by (rule sessionInv_lifecycle)
  qed
qed

lemma sessionInv_afterInitialize: "sessionInv s \<Longrightarrow> sessionInv (afterInitialize i s)"
  using handshake_afterInitialize resolveCounts_afterInitialize by (rule sessionInv_handshake)

lemma sessionInv_getBestMove:
  assumes inv: "sessionInv s"
  shows "sessionInv (snd (getBestMove f os s))"
proof -
  define s1 where "s1 = s\<lparr>searches := searches s @ [\<lparr>fen = f, opts = os, status = Suspended\<rparr>]\<rparr>"
  have inv1: "sessionInv s1"
    unfolding s1_def using lifecycle_searches_update inv by (rule sessionInv_lifecycle)
  show ?thesis
  proof (cases "worker s1 = None")
    case True
    have "sessionInv (await (fst (initialize s1)) (AfterInitialize (length (searches s)))
        (afterInitialize (length (searches s))) (snd (initialize s1)))"
      using sessionInv_afterInitialize sessionInv_initialize [OF inv1] by (rule sessionInv_await)
    thus ?thesis using True
      by (simp add: getBestMove_def Let_def split_beta s1_def)
  next
    case False
    thus ?thesis using sessionInv_afterInitialize [OF inv1]
      by (auto simp: getBestMove_def Let_def s1_def)
  qed
qed

lemma sessionInv_step:
  assumes inv: "sessionInv s" and e: "e \<noteq> CallDispose"
  shows "sessionInv (step e s)"
proof (cases e)
  case CallInitialize
  thus ?thesis using sessionInv_initialize [OF inv] by simp
next
  case (CallGetBestMove f os)
  thus ?thesis using sessionInv_getBestMove [OF inv] by simp
next
  case (CallSetSkillLevel x)
  thus ?thesis using sessionInv_lifecycle [OF lifecycle_setSkillLevel inv] by simp
next
  case (CallSetHashSize x)
  thus ?thesis
    using sessionInv_handshake [OF handshake_setHashSize resolveCounts_setHashSize inv] by simp
next
  case (CallSetOption n v)
  thus ?thesis
    using sessionInv_handshake [OF handshake_setOption resolveCounts_setOption inv] by simp
next
  case CallDispose
  thus ?thesis using e by simp
next
  case (TimerFires n)
  thus ?thesis using sessionInv_timerFires [OF inv] by simp
next
  case (WorkerError w)
  thus ?thesis using sessionInv_dispatchError [OF inv] by simp
next
  case (WorkerMessage w d)
  thus ?thesis using sessionInv_dispatchMessage [OF inv] by simp
qed

lemma sessionInv_run:
  "sessionInv s \<Longrightarrow> CallDispose \<notin> set evs \<Longrightarrow> sessionInv (run evs s)"
  unfolding run_def
proof (induction evs arbitrary: s)
  case Nil
  thus ?case by simp
next
  case (Cons e evs)
  from Cons.prems have "e \<noteq> CallDispose" "CallDispose \<notin> set evs" by auto
  with Cons.IH [of "step e s"] sessionInv_step [OF Cons.prems(1)] show ?case by simp
qed

lemma sessionInv_newEngine: "sessionInv ((newEngine hc)\<lparr>throwingScripts := fs\<rparr>)"
  by (rule sessionInvI)
     (simp_all add: sound_def listenersOk_def readyQuiet_def countsOk_def started_def
        alive_def newEngine_def resolveCounts_def)

lemma timerFires_without_launch:
  "isReady s \<or> (n < length (workers s) \<and> singleThreaded (workers s ! n)) \<Longrightarrow>
   timerFires n s = s \<or>
   timerFires n s = updWorker n (\<lambda>l. l\<lparr>timeoutPending := False\<rparr>) s"
  by (auto simp: timerFires_def timeoutCallback_def Let_def updWorker_def)

lemma error_launches_fallback:
  "alive s w \<Longrightarrow> errorListeners (workers s ! w) = [w] \<Longrightarrow>
   \<not> singleThreaded (workers s ! w) \<Longrightarrow> \<not> constructorThrows fallbackUrl s \<Longrightarrow>
   dispatchError w s = relaunch (resolveInit (workers s ! w)) fallbackUrl True s"
  by (simp add: dispatchError_def handleError_def alive_def initializeWorker_returns)


subsection \<open>The promises of initialize\<close>

lemma rejections_updates [simp]:
  "rejections (s\<lparr>currentSkillLevel := v\<rparr>) = rejections s"
  "rejections (s\<lparr>worker := w\<rparr>) = rejections s"
  "rejections (s\<lparr>isReady := b\<rparr>) = rejections s"
  "rejections (s\<lparr>pendingInit := p\<rparr>) = rejections s"
  "rejections (s\<lparr>isSingleThreaded := b\<rparr>) = rejections s"
  "rejections (s\<lparr>workers := ws\<rparr>) = rejections s"
  "rejections (s\<lparr>searches := qs\<rparr>) = rejections s"
  by (simp_all add: rejections_def)

lemma rejections_updWorker [simp]: "rejections (updWorker w f s) = rejections s"
  by (simp add: rejections_def)

lemma rejections_postMessage [simp]: "rejections (postMessage w c s) = rejections s"
  by (simp add: postMessage_def)

lemma rejections_setStatus [simp]: "rejections (setStatus i st s) = rejections s"
  by (simp add: setStatus_def)

lemma rejections_sendSearch [simp]: "rejections (sendSearch i s) = rejections s"
  by (simp add: sendSearch_def Let_def split: option.splits)

lemma rejections_await:
  "(\<And>t. rejections (body t) = rejections t) \<Longrightarrow>
   rejections (await p k body s) = rejections s"
  by (simp add: await_def rejections_def setStatus_def map_update_same split: option.splits)

lemma rejections_afterInitialize [simp]: "rejections (afterInitialize i s) = rejections s"
  by (simp add: afterInitialize_def rejections_await split: option.splits)

lemma rejections_runContinuation [simp]: "rejections (runContinuation k s) = rejections s"
  by (cases k) simp_all

lemma rejections_continuations [simp]:
  "rejections (fold runContinuation ks s) = rejections s"
  by (rule fold_frame) simp

lemma rejections_onMessage [simp]: "rejections (onMessage i text s) = rejections s"
  by (simp add: onMessage_def removeMessageListener_def split: option.splits)

lemma rejections_resolvePromise [simp]: "rejections (resolvePromise p s) = rejections s"
proof -
  have "rejections (s\<lparr>initPromises := (initPromises s)[p := (initPromises s ! p)
          \<lparr>resolveCalls := Suc (resolveCalls (initPromises s ! p)), reactions := []\<rparr>]\<rparr>)
        = rejections s"
    by (simp add: rejections_def map_update_same [where f = "\<lambda>x. x\<lparr>resolveCalls :=
        Suc (resolveCalls x), reactions := []\<rparr>"])
  thus ?thesis by (simp add: resolvePromise_def Let_def)
qed

lemma rejections_handleMessage [simp]: "rejections (handleMessage n t s) = rejections s"
  by (simp add: handleMessage_def Let_def removeErrorListener_def removeMessageListener_def
      split: option.splits)

lemma rejections_callListener [simp]: "rejections (callListener l t s) = rejections s"
  by (cases l) simp_all

lemma rejections_dispatchMessage [simp]: "rejections (dispatchMessage w d s) = rejections s"
  by (simp add: dispatchMessage_def fold_frame)

lemma rejections_events [simp]:
  "rejections (timerFires n s) = rejections s"
  "rejections (dispatchError w s) = rejections s"
  "rejections (setSkillLevel x s) = rejections s"
  "rejections (setHashSize x s) = rejections s"
  "rejections (setOption nm v s) = rejections s"
  "rejections (dispose s) = rejections s"
  by (simp_all add: rejections_def setSkillLevel_def setHashSize_def setOption_def dispose_def
      postMessage_def terminate_def Let_def split: option.splits)

lemma rejection_frame: "throwingScripts s' = throwingScripts s \<Longrightarrow> rejection s' = rejection s"
  by (simp add: rejection_def constructorThrows_def)

lemma rejections_initialize:
  "rejections (snd (initialize s)) =
     (if pendingInit s = None then rejections s @ [rejection s] else rejections s)"
  by (cases "pendingInit s"; cases "constructorThrows primaryUrl s")
     (simp_all add: initialize_pending initialize_fresh initialize_fresh_throws
        relaunch_fields releaseWorker_fields rejections_def rejection_def)

lemma fst_initialize:
  "fst (initialize s) = (case pendingInit s of Some p \<Rightarrow> p | None \<Rightarrow> length (initPromises s))"
  by (simp add: initialize_def Let_def split_beta split: option.splits)

lemma worker_initialize_pending:
  "pendingInit s = Some p \<Longrightarrow> worker (snd (initialize s)) = worker s"
  by (simp add: initialize_pending)

lemma rejections_getBestMove:
  "rejections (snd (getBestMove f os s)) =
     (if worker s = None \<and> pendingInit s = None then rejections s @ [rejection s]
      else rejections s)"
  by (simp add: getBestMove_def Let_def split_beta rejections_await rejections_initialize
      rejection_frame [of "s\<lparr>searches := qs\<rparr>" s for qs])

lemma pendingInit_getBestMove:
  "pendingInit (snd (getBestMove f os s)) =
     (if worker s = None \<and> pendingInit s = None then Some (length (initPromises s))
      else pendingInit s)"
proof -
  have a: "pendingInit (await p k body t) = pendingInit t"
    if "\<And>u. pendingInit (body u) = pendingInit u" for p k body t
    using that by (simp add: await_def split: option.splits)
  show ?thesis
    by (cases "pendingInit s")
       (simp_all add: getBestMove_def Let_def split_beta a fst_initialize initialize_pending)
qed

lemma rejection_step [simp]: "rejection (step e s) = rejection s"
  by (rule rejection_frame) (cases e; simp)

lemma promisesOk_step:
  assumes ok: "promisesOk s"
  shows "promisesOk (step e s)"
proof -
  have len: "length (initPromises t) = length (rejections t)" for t
    by (simp add: rejections_def)
  from ok have p: "\<And>p. pendingInit s = Some p \<Longrightarrow> p < length (rejections s)"
    and r: "\<forall>r \<in> set (rejections s). r = rejection s"
    unfolding promisesOk_def len by blast+
  have "(pendingInit (step e s) = pendingInit s \<or> pendingInit (step e s) = None)
          \<and> rejections (step e s) = rejections s
        \<or> pendingInit (step e s) = Some (length (rejections s))
          \<and> rejections (step e s) = rejections s @ [rejection s]"
  proof (cases e)
    case CallInitialize
    thus ?thesis
      by (cases "pendingInit s") (simp_all add: rejections_initialize fst_initialize len)
  next
    case (CallGetBestMove f os)
    thus ?thesis by (simp add: rejections_getBestMove pendingInit_getBestMove len)
  next
    case CallDispose
    thus ?thesis by (cases "worker s") (simp_all add: dispose_def terminate_def)
  qed simp_all
  thus ?thesis
    unfolding promisesOk_def len rejection_step using p r by auto
qed

lemma promisesOk_run: "promisesOk s \<Longrightarrow> promisesOk (run evs s)"
  unfolding run_def by (induction evs arbitrary: s) (simp_all add: promisesOk_step)

lemma promisesOk_newEngine: "promisesOk ((newEngine hc)\<lparr>throwingScripts := fs\<rparr>)"
  by (simp add: promisesOk_def newEngine_def rejections_def)

lemma throwingScripts_step [simp]: "throwingScripts (step e s) = throwingScripts s"
  by (cases e) simp_all

lemma throwingScripts_run [simp]: "throwingScripts (run evs s) = throwingScripts s"
  unfolding run_def by (induction evs arbitrary: s) simp_all

subsection \<open>The current worker\<close>

lemma current_handshake:
  assumes "handshake s' = handshake s"
  shows "current s' = current s"
  unfolding current_def alive_handshake [OF assms] handshakeD(1) [OF assms] ..

lemma current_updates [simp]:
  "current (s\<lparr>pendingInit := p\<rparr>) = current s"
  "current (s\<lparr>initPromises := ps\<rparr>) = current s"
  "current (s\<lparr>searches := qs\<rparr>) = current s"
  "current (s\<lparr>isReady := b\<rparr>) = current s"
  by (simp_all add: current_def)

lemma current_relaunch: "current (relaunch p url b s)"
  by (simp add: current_def relaunch_fields alive_def relaunch_new)

lemma current_absent: "worker s = None \<Longrightarrow> current s"
  by (simp add: current_def)

lemma current_initializeWorker: "current (snd (initializeWorker p url b s))"
  by (cases "constructorThrows url s")
     (simp_all add: initializeWorker_returns initializeWorker_throws current_relaunch
        current_absent releaseWorker_fields)

lemma current_initialize: "current s \<Longrightarrow> current (snd (initialize s))"
  by (cases "pendingInit s"; cases "constructorThrows primaryUrl s")
     (simp_all add: initialize_pending initialize_fresh initialize_fresh_throws
        current_relaunch current_absent releaseWorker_fields)

lemma current_getBestMove: "current s \<Longrightarrow> current (snd (getBestMove f os s))"
  by (simp add: getBestMove_def Let_def split_beta current_initialize
      current_handshake [OF handshake_await] current_handshake [OF handshake_afterInitialize])

lemma current_updWorker:
  "(\<And>l. terminated (f l) = terminated l) \<Longrightarrow> current (updWorker w f s) = current s"
  by (simp add: current_def alive_updWorker)

lemma current_timerFires: "current s \<Longrightarrow> current (timerFires n s)"
  by (simp add: timerFires_def timeoutCallback_def Let_def current_initializeWorker
      current_updWorker)

lemma current_dispatchError: "current s \<Longrightarrow> current (dispatchError w s)"
  unfolding dispatchError_def
  by (simp add: fold_inv handleError_def Let_def current_initializeWorker)

lemma current_callListener: "current (callListener l t s) = current s"
  by (simp add: current_def)

lemma current_dispatchMessage: "current s \<Longrightarrow> current (dispatchMessage w d s)"
  unfolding dispatchMessage_def by (simp add: fold_inv current_callListener)

lemma current_setSkillLevel: "current (setSkillLevel x s) = current s"
  by (simp add: current_def)

lemma current_step: "current s \<Longrightarrow> current (step e s)"
  by (cases e)
     (simp_all add: current_initialize current_getBestMove current_setSkillLevel
        current_handshake [OF handshake_setHashSize] current_handshake [OF handshake_setOption]
        current_absent current_timerFires current_dispatchError current_dispatchMessage)

lemma current_run: "current s \<Longrightarrow> current (run evs s)"
  unfolding run_def by (induction evs arbitrary: s) (simp_all add: current_step)

lemma current_newEngine: "current ((newEngine hc)\<lparr>throwingScripts := fs\<rparr>)"
  by (simp add: current_def newEngine_def)

subsection \<open>Delivery of a terminating message\<close>

lemma messageListeners_updWorker:
  "(\<And>l. messageListeners (f l) = messageListeners l) \<Longrightarrow>
   messageListeners (workers (updWorker w f s) ! n) = messageListeners (workers s ! n)"
  by (cases "w < length (workers s)"; cases "n = w")
     (simp_all add: updWorker_def list_update_beyond)

lemma messageListeners_postMessage [simp]:
  "messageListeners (workers (postMessage w c s) ! n) = messageListeners (workers s ! n)"
  by (simp add: postMessage_def messageListeners_updWorker)

lemma searches_updWorker [simp]: "searches (updWorker w f s) = searches s"
  by (simp add: updWorker_def)

lemma searches_postMessage [simp]: "searches (postMessage w c s) = searches s"
  by (simp add: postMessage_def)

lemma workers_setStatus [simp]: "workers (setStatus i st s) = workers s"
  by (simp add: setStatus_def)

lemma length_searches_setStatus [simp]:
  "length (searches (setStatus i st s)) = length (searches s)"
  by (simp add: setStatus_def)

lemma status_setStatus:
  "i < length (searches s) \<Longrightarrow>
   status (searches (setStatus j st s) ! i) = (if i = j then st else status (searches s ! i))"
  by (simp add: setStatus_def nth_list_update)

lemma onMessage_bestmove:
  assumes sw: "startsWith text ''bestmove''" and w: "worker s = Some w"
  shows "onMessage j text s =
           setStatus j (Resolved (parseBestMove text)) (removeMessageListener w (OnMessage j) s)"
proof -
  from sw have "text \<noteq> []" unfolding startsWith_def by auto
  thus ?thesis using sw w by (simp add: onMessage_def)
qed

lemma removeMessageListener_listeners:
  "w < length (workers s) \<Longrightarrow>
   messageListeners (workers (removeMessageListener w l s) ! w) =
     removeAll l (messageListeners (workers s ! w))"
  by (simp add: removeMessageListener_def updWorker_def)

lemma removeMessageListener_frame [simp]:
  "worker (removeMessageListener w l s) = worker s"
  "isReady (removeMessageListener w l s) = isReady s"
  "searches (removeMessageListener w l s) = searches s"
  "length (workers (removeMessageListener w l s)) = length (workers s)"
  by (simp_all add: removeMessageListener_def)

lemma deliver_bestmove:
  assumes sw: "startsWith text ''bestmove''"
  shows "worker s = Some w \<Longrightarrow> w < length (workers s) \<Longrightarrow> sid < length (searches s) \<Longrightarrow>
     \<forall>l \<in> set ls. \<not> isHandshake l \<Longrightarrow>
     (OnMessage sid \<in> set ls \<and> OnMessage sid \<in> set (messageListeners (workers s ! w)))
       \<or> (status (searches s ! sid) = Resolved (parseBestMove text)
           \<and> OnMessage sid \<notin> set (messageListeners (workers s ! w))) \<Longrightarrow>
     status (searches (fold (\<lambda>l t. if l \<in> set (messageListeners (workers t ! w))
                               then callListener l text t else t) ls s) ! sid) =
       Resolved (parseBestMove text)"
proof (induction ls arbitrary: s)
  case Nil
  thus ?case by simp
next
  case (Cons l ls)
  define t where "t = (if l \<in> set (messageListeners (workers s ! w))
                       then callListener l text s else s)"
  from Cons.prems(4) obtain j where l: "l = OnMessage j" by (cases l) auto
  have ls: "\<forall>l \<in> set ls. \<not> isHandshake l" using Cons.prems(4) by simp
  have facts: "worker t = Some w \<and> w < length (workers t) \<and> sid < length (searches t) \<and>
     ((OnMessage sid \<in> set ls \<and> OnMessage sid \<in> set (messageListeners (workers t ! w)))
       \<or> (status (searches t ! sid) = Resolved (parseBestMove text)
           \<and> OnMessage sid \<notin> set (messageListeners (workers t ! w))))"
  proof (cases "l \<in> set (messageListeners (workers s ! w))")
    case False
    hence t: "t = s" by (simp add: t_def)
    from False Cons.prems(5) have "l \<noteq> OnMessage sid \<or>
        OnMessage sid \<notin> set (messageListeners (workers s ! w))" by auto
    with Cons.prems show ?thesis unfolding t by auto
  next
    case True
    hence t: "t = setStatus j (Resolved (parseBestMove text))
                    (removeMessageListener w (OnMessage j) s)"
      by (simp add: t_def l onMessage_bestmove [OF sw Cons.prems(1)])
    have lst: "messageListeners (workers t ! w) =
                 removeAll (OnMessage j) (messageListeners (workers s ! w))"
      unfolding t by (simp add: removeMessageListener_listeners [OF Cons.prems(2)])
    have st: "status (searches t ! sid) =
                (if sid = j then Resolved (parseBestMove text) else status (searches s ! sid))"
      unfolding t using Cons.prems(3) by (simp add: status_setStatus)
    have fr: "worker t = Some w" "w < length (workers t)" "sid < length (searches t)"
      unfolding t using Cons.prems(1,2,3) by simp_all
    show ?thesis
    proof (cases "sid = j")
      case True
      thus ?thesis using fr lst st by simp
    next
      case False
      thus ?thesis using fr lst st Cons.prems(5) l by auto
    qed
  qed
  from facts have "status (searches (fold (\<lambda>l t. if l \<in> set (messageListeners (workers t ! w))
                               then callListener l text t else t) ls t) ! sid) =
       Resolved (parseBestMove text)"
    using ls by (intro Cons.IH) blast+
  thus ?case by (simp add: t_def)
qed

lemma dispatch_bestmove:
  assumes sw: "startsWith text ''bestmove''"
    and w: "worker s = Some w" and a: "alive s w"
    and q: "handshakeListeners s w = []"
    and sid: "sid < length (searches s)"
    and l: "OnMessage sid \<in> set (messageListeners (workers s ! w))"
  shows "status (searches (dispatchMessage w (StringData text) s) ! sid) =
           Resolved (parseBestMove text)"
proof -
  from a have lt: "w < length (workers s)" and nt: "\<not> terminated (workers s ! w)"
    by (simp_all add: alive_def)
  from q have nh: "\<forall>l \<in> set (messageListeners (workers s ! w)). \<not> isHandshake l"
    unfolding handshakeListeners_def by (simp add: filter_empty_conv)
  from deliver_bestmove [OF sw w lt sid nh] l
  show ?thesis unfolding dispatchMessage_def textOf.simps using lt nt by simp
qed

subsection \<open>Searches in progress\<close>

lemma searchingOk_mono:
  assumes ok: "searchingOk s" and q: "searches s' = searches s"
    and r: "isReady s \<Longrightarrow> isReady s'" and w: "worker s' = worker s"
    and l: "\<And>n sid. OnMessage sid \<in> set (messageListeners (workers s ! n)) \<Longrightarrow>
              OnMessage sid \<in> set (messageListeners (workers s' ! n))"
  shows "searchingOk s'"
  unfolding searchingOk_def q w
proof (intro allI impI)
  fix sid assume "sid < length (searches s)" "status (searches s ! sid) = Searching"
  with ok obtain x where "isReady s" "worker s = Some x"
    "OnMessage sid \<in> set (messageListeners (workers s ! x))"
    unfolding searchingOk_def by blast
  thus "isReady s' \<and>
        (\<exists>w. worker s = Some w \<and> OnMessage sid \<in> set (messageListeners (workers s' ! w)))"
    using r l by blast
qed

lemma searchingOk_idle:
  assumes ok: "searchingOk s" and nr: "\<not> isReady s" and q: "searches s' = searches s"
  shows "searchingOk s'"
  unfolding searchingOk_def q using ok nr unfolding searchingOk_def by blast

lemma searchingOk_updates [simp]:
  "searchingOk (s\<lparr>initPromises := ps\<rparr>) = searchingOk s"
  "searchingOk (s\<lparr>pendingInit := p\<rparr>) = searchingOk s"
  "searchingOk (s\<lparr>currentSkillLevel := v\<rparr>) = searchingOk s"
  by (simp_all add: searchingOk_def)

lemma searchingOk_setStatus:
  assumes ok: "searchingOk s" and st: "st \<noteq> Searching"
  shows "searchingOk (setStatus i st s)"
  unfolding searchingOk_def
proof (intro allI impI)
  fix sid
  assume lt: "sid < length (searches (setStatus i st s))"
    and se: "status (searches (setStatus i st s) ! sid) = Searching"
  from lt have lt': "sid < length (searches s)" by simp
  from se st have "status (searches s ! sid) = Searching"
    unfolding status_setStatus [OF lt'] by (simp split: if_splits)
  with ok lt' have "isReady s \<and>
      (\<exists>w. worker s = Some w \<and> OnMessage sid \<in> set (messageListeners (workers s ! w)))"
    unfolding searchingOk_def by blast
  thus "isReady (setStatus i st s) \<and>
      (\<exists>w. worker (setStatus i st s) = Some w \<and>
           OnMessage sid \<in> set (messageListeners (workers (setStatus i st s) ! w)))"
    by simp
qed

lemma searchingOk_sendSearch:
  assumes ok: "searchingOk s" and w: "worker s = Some w" and lt: "w < length (workers s)"
    and r: "isReady s"
  shows "searchingOk (sendSearch i s)"
proof -
  define s3 where "s3 = postMessage w (goCommand (opts (searches s ! i)))
      (postMessage w (PositionFen (fen (searches s ! i)))
        (updWorker w (\<lambda>l. l\<lparr>messageListeners := messageListeners l @ [OnMessage i]\<rparr>) s))"
  have eq: "sendSearch i s = setStatus i Searching s3"
    by (simp add: sendSearch_def w Let_def s3_def)
  have f: "searches s3 = searches s" "isReady s3" "worker s3 = Some w"
    using r w by (simp_all add: s3_def)
  have m: "messageListeners (workers s3 ! n) =
        (if n = w then messageListeners (workers s ! w) @ [OnMessage i]
         else messageListeners (workers s ! n))" for n
    using lt by (simp add: s3_def updWorker_def)
  show ?thesis
    unfolding searchingOk_def eq
  proof (intro allI impI)
    fix sid
    assume a: "sid < length (searches (setStatus i Searching s3))"
      and se: "status (searches (setStatus i Searching s3) ! sid) = Searching"
    from a have lt': "sid < length (searches s)" by (simp add: f)
    have "OnMessage sid \<in> set (messageListeners (workers s3 ! w))"
    proof (cases "sid = i")
      case True
      thus ?thesis by (simp add: m)
    next
      case False
      with se have "status (searches s ! sid) = Searching"
        using lt' by (simp add: status_setStatus f)
      with ok lt' w have "OnMessage sid \<in> set (messageListeners (workers s ! w))"
        unfolding searchingOk_def by auto
      thus ?thesis by (simp add: m)
    qed
    thus "isReady (setStatus i Searching s3) \<and>
      (\<exists>w. worker (setStatus i Searching s3) = Some w \<and>
           OnMessage sid \<in> set (messageListeners (workers (setStatus i Searching s3) ! w)))"
      using f by simp
  qed
qed

lemma current_lt: "current s \<Longrightarrow> worker s = Some w \<Longrightarrow> w < length (workers s)"
  by (simp add: current_def alive_def)

lemma searchingOk_runContinuation:
  assumes ok: "searchingOk s" and c: "current s" and w: "worker s = Some w" and r: "isReady s"
  shows "searchingOk (runContinuation k s)"
  using searchingOk_sendSearch [OF ok w current_lt [OF c w] r] w r
  by (cases k) (simp_all add: afterInitialize_def)

lemma searchingOk_continuations:
  assumes ok: "searchingOk s" and c: "current s" and w: "worker s = Some w" and r: "isReady s"
  shows "searchingOk (fold runContinuation ks s)"
proof -
  have "searchingOk (fold runContinuation ks s) \<and> current (fold runContinuation ks s)
      \<and> worker (fold runContinuation ks s) = Some w \<and> isReady (fold runContinuation ks s)"
  proof (rule fold_inv [where P = "\<lambda>t. searchingOk t \<and> current t \<and> worker t = Some w \<and> isReady t"])
    show "searchingOk s \<and> current s \<and> worker s = Some w \<and> isReady s"
      using ok c w r by simp
  next
    fix k t assume a: "searchingOk t \<and> current t \<and> worker t = Some w \<and> isReady t"
    hence "searchingOk (runContinuation k t)" by (simp add: searchingOk_runContinuation)
    moreover have "current (runContinuation k t) = current t"
      by (rule current_handshake) simp
    moreover have "worker (runContinuation k t) = worker t" "isReady (runContinuation k t) = isReady t"
      by (rule handshakeD [OF handshake_runContinuation])+
    ultimately show "searchingOk (runContinuation k t) \<and> current (runContinuation k t)
      \<and> worker (runContinuation k t) = Some w \<and> isReady (runContinuation k t)"
      using a by simp
  qed
  thus ?thesis by simp
qed

lemma searchingOk_resolvePromise:
  assumes ok: "searchingOk s" and c: "current s" and w: "worker s = Some w" and r: "isReady s"
  shows "searchingOk (resolvePromise p s)"
  unfolding resolvePromise_def Let_def
  by (rule searchingOk_continuations [where w = w]) (simp_all add: ok c w r)

lemma listener_removeMessageListener:
  "l \<noteq> l' \<Longrightarrow>
   (l \<in> set (messageListeners (workers (removeMessageListener w l' s) ! m))) =
   (l \<in> set (messageListeners (workers s ! m)))"
  by (cases "w < length (workers s)"; cases "m = w")
     (simp_all add: removeMessageListener_def updWorker_def list_update_beyond)

lemma messageListeners_removeErrorListener [simp]:
  "messageListeners (workers (removeErrorListener w k s) ! m) = messageListeners (workers s ! m)"
  by (simp add: removeErrorListener_def messageListeners_updWorker)

lemma removeErrorListener_frame [simp]:
  "worker (removeErrorListener w k s) = worker s"
  "isReady (removeErrorListener w k s) = isReady s"
  "searches (removeErrorListener w k s) = searches s"
  by (simp_all add: removeErrorListener_def)

lemma current_removeListeners [simp]:
  "current (removeErrorListener w k s) = current s"
  "current (removeMessageListener w l s) = current s"
  by (simp_all add: removeErrorListener_def removeMessageListener_def current_updWorker)

lemma searchingOk_handleMessage:
  assumes ok: "searchingOk s" and c: "current s"
  shows "searchingOk (handleMessage n t s)"
proof (cases "t \<noteq> [] \<and> \<not> includes_str t ''uciok'' \<and> includes_str t ''readyok''")
  case False
  have "searchingOk (postMessage cw IsReady s)" for cw
    by (rule searchingOk_mono [OF ok]) simp_all
  thus ?thesis using False ok by (auto simp: handleMessage_def split: option.splits)
next
  case True
  define s2 where "s2 = (updWorker n (\<lambda>l. l\<lparr>timeoutPending := False\<rparr>) s)\<lparr>isReady := True\<rparr>"
  have ok2: "searchingOk s2"
    by (rule searchingOk_mono [OF ok]) (simp_all add: s2_def messageListeners_updWorker)
  have c2: "current s2" using c by (simp add: s2_def current_updWorker)
  show ?thesis
  proof (cases "worker s")
    case None
    hence "handleMessage n t s = s2" using True by (simp add: handleMessage_def Let_def s2_def)
    thus ?thesis using ok2 by simp
  next
    case (Some cw)
    define s3 where "s3 = removeErrorListener cw n (removeMessageListener cw (HandleMessage n) s2)"
    have eq: "handleMessage n t s = resolvePromise (resolveInit (workers s2 ! n)) s3"
      using True Some by (simp add: handleMessage_def Let_def s2_def s3_def)
    have ok3: "searchingOk s3"
      by (rule searchingOk_mono [OF ok2])
         (simp_all add: s3_def listener_removeMessageListener)
    have "current s3" "worker s3 = Some cw" "isReady s3"
      using c2 Some by (simp_all add: s3_def s2_def)
    with ok3 show ?thesis unfolding eq by (rule searchingOk_resolvePromise)
  qed
qed

lemma searchingOk_onMessage:
  assumes ok: "searchingOk s"
  shows "searchingOk (onMessage j t s)"
proof (cases "t \<noteq> [] \<and> startsWith t ''bestmove'' \<and> worker s \<noteq> None")
  case False
  thus ?thesis using ok by (auto simp: onMessage_def split: option.splits)
next
  case True
  then obtain cw where cw: "worker s = Some cw" by auto
  define s1 where "s1 = removeMessageListener cw (OnMessage j) s"
  have eq: "onMessage j t s = setStatus j (Resolved (parseBestMove t)) s1"
    using True cw by (simp add: onMessage_def s1_def)
  show ?thesis
    unfolding searchingOk_def eq
  proof (intro allI impI)
    fix sid
    assume a: "sid < length (searches (setStatus j (Resolved (parseBestMove t)) s1))"
      and se: "status (searches (setStatus j (Resolved (parseBestMove t)) s1) ! sid) = Searching"
    from a have lt: "sid < length (searches s)" by (simp add: s1_def)
    hence lt1: "sid < length (searches s1)" by (simp add: s1_def)
    from se have ne: "sid \<noteq> j" and "status (searches s1 ! sid) = Searching"
      unfolding status_setStatus [OF lt1] by (simp_all split: if_splits)
    hence "status (searches s ! sid) = Searching" by (simp add: s1_def)
    with ok lt cw have "isReady s" "OnMessage sid \<in> set (messageListeners (workers s ! cw))"
      unfolding searchingOk_def by auto
    moreover from ne have "OnMessage sid \<noteq> OnMessage j" by simp
    ultimately show "isReady (setStatus j (Resolved (parseBestMove t)) s1) \<and>
      (\<exists>w. worker (setStatus j (Resolved (parseBestMove t)) s1) = Some w \<and>
           OnMessage sid \<in> set (messageListeners
             (workers (setStatus j (Resolved (parseBestMove t)) s1) ! w)))"
      using cw by (simp add: s1_def listener_removeMessageListener)
  qed
qed

lemma searchingOk_dispatchMessage:
  assumes ok: "searchingOk s" and c: "current s"
  shows "searchingOk (dispatchMessage w d s)"
proof -
  have "searchingOk (callListener l t u) \<and> current (callListener l t u)"
    if "searchingOk u \<and> current u" for l t u
    using that
    by (cases l) (simp_all add: searchingOk_handleMessage searchingOk_onMessage
        current_callListener [of "HandleMessage n" for n, simplified]
        current_callListener [of "OnMessage n" for n, simplified])
  hence "searchingOk (dispatchMessage w d s) \<and> current (dispatchMessage w d s)"
    unfolding dispatchMessage_def using ok c
    by (simp add: fold_inv [where P = "\<lambda>t. searchingOk t \<and> current t"])
  thus ?thesis by simp
qed

lemma searchingOk_await:
  assumes ok: "searchingOk s"
    and b: "0 < resolveCalls (initPromises s ! p) \<Longrightarrow> searchingOk (body s)"
  shows "searchingOk (await p k body s)"
proof (cases "rejected (initPromises s ! p)")
  case (Some e)
  thus ?thesis using searchingOk_setStatus [OF ok, of "Rejected e"] by (simp add: await_def)
next
  case None
  thus ?thesis using ok b by (simp add: await_def)
qed

lemma pending_unresolved:
  assumes inv: "sessionInv s" and pr: "promisesOk s" and nr: "\<not> isReady s"
    and p: "pendingInit s = Some p"
  shows "resolveCalls (initPromises s ! p) = 0"
proof -
  from pr p have "p < length (initPromises s)" unfolding promisesOk_def by blast
  hence "resolveCalls (initPromises s ! p) \<in> set (resolveCounts s)"
    unfolding resolveCounts_def by simp
  with sessionInvD(4) [OF inv] nr show ?thesis unfolding countsOk_def by blast
qed

lemma sessionInv_pending:
  assumes inv: "sessionInv s" and w: "worker s = Some w"
  shows "pendingInit s \<noteq> None"
proof
  assume "pendingInit s = None"
  from sessionInv_not_started(1) [OF inv this] w show False by simp
qed

lemma searchingOk_afterInitialize:
  assumes inv: "sessionInv s" and pr: "promisesOk s" and c: "current s"
    and ok: "searchingOk s"
  shows "searchingOk (afterInitialize sid s)"
proof (cases "worker s")
  case None
  thus ?thesis using searchingOk_setStatus [OF ok] by (simp add: afterInitialize_def)
next
  case (Some w)
  note lt = current_lt [OF c Some]
  show ?thesis
  proof (cases "isReady s")
    case True
    thus ?thesis using searchingOk_sendSearch [OF ok Some lt] Some
      by (simp add: afterInitialize_def)
  next
    case False
    from sessionInv_pending [OF inv Some] obtain p where p: "pendingInit s = Some p" by auto
    have z: "resolveCalls (initPromises s ! p) = 0"
      by (rule pending_unresolved [OF inv pr False p])
    have "searchingOk (await p (AfterPendingInit sid) (sendSearch sid) s)"
      by (rule searchingOk_await [OF ok]) (simp add: z)
    thus ?thesis using False Some p by (simp add: afterInitialize_def)
  qed
qed

lemma searches_initialize [simp]: "searches (snd (initialize s)) = searches s"
  by (cases "pendingInit s"; cases "constructorThrows primaryUrl s")
     (simp_all add: initialize_pending initialize_fresh initialize_fresh_throws
        relaunch_fields releaseWorker_fields)

lemma searchingOk_initialize:
  assumes inv: "sessionInv s" and ok: "searchingOk s"
  shows "searchingOk (snd (initialize s))"
proof (cases "pendingInit s")
  case (Some p)
  thus ?thesis using ok by (simp add: initialize_pending)
next
  case None
  from ok sessionInv_not_started(2) [OF inv None] show ?thesis
    by (rule searchingOk_idle) simp
qed

lemma promisesOk_searches_update [simp]:
  "promisesOk (s\<lparr>searches := qs\<rparr>) = promisesOk s"
  by (simp add: promisesOk_def rejection_def constructorThrows_def)

lemma sessionInv_searches_update:
  "sessionInv s \<Longrightarrow> sessionInv (s\<lparr>searches := qs\<rparr>)"
  using sessionInv_lifecycle [OF lifecycle_searches_update] .

lemma searchingOk_new:
  assumes ok: "searchingOk s"
  shows "searchingOk (s\<lparr>searches := searches s @ [\<lparr>fen = f, opts = os, status = Suspended\<rparr>]\<rparr>)"
  unfolding searchingOk_def
proof (intro allI impI)
  fix sid
  assume lt: "sid < length (searches (s\<lparr>searches := searches s @
              [\<lparr>fen = f, opts = os, status = Suspended\<rparr>]\<rparr>))"
    and se: "status (searches (s\<lparr>searches := searches s @
              [\<lparr>fen = f, opts = os, status = Suspended\<rparr>]\<rparr>) ! sid) = Searching"
  have "sid < length (searches s)"
  proof (rule ccontr)
    assume "\<not> sid < length (searches s)"
    with lt have "sid = length (searches s)" by simp
    with se show False by simp
  qed
  moreover from this se have "status (searches s ! sid) = Searching" by (simp add: nth_append)
  ultimately have "isReady s \<and>
      (\<exists>w. worker s = Some w \<and> OnMessage sid \<in> set (messageListeners (workers s ! w)))"
    using ok unfolding searchingOk_def by blast
  thus "isReady (s\<lparr>searches := searches s @ [\<lparr>fen = f, opts = os, status = Suspended\<rparr>]\<rparr>) \<and>
      (\<exists>w. worker (s\<lparr>searches := searches s @ [\<lparr>fen = f, opts = os, status = Suspended\<rparr>]\<rparr>)
              = Some w \<and>
           OnMessage sid \<in> set (messageListeners
             (workers (s\<lparr>searches := searches s @ [\<lparr>fen = f, opts = os, status = Suspended\<rparr>]\<rparr>)
                ! w)))"
    by simp
qed

lemma searchingOk_getBestMove:
  assumes inv: "sessionInv s" and pr: "promisesOk s" and c: "current s"
    and ok: "searchingOk s"
  shows "searchingOk (snd (getBestMove f os s))"
proof -
  define s1 where "s1 = s\<lparr>searches := searches s @ [\<lparr>fen = f, opts = os, status = Suspended\<rparr>]\<rparr>"
  have i1: "sessionInv s1" "promisesOk s1" "current s1" "searchingOk s1"
    using inv pr c searchingOk_new [OF ok]
    by (simp_all add: s1_def sessionInv_searches_update)
  show ?thesis
  proof (cases "worker s")
    case (Some w)
    hence "snd (getBestMove f os s) = afterInitialize (length (searches s)) s1"
      by (simp add: getBestMove_def Let_def s1_def)
    thus ?thesis using searchingOk_afterInitialize [OF i1] by simp
  next
    case None
    define s2 where "s2 = snd (initialize s1)"
    have eq: "snd (getBestMove f os s) =
        await (fst (initialize s1)) (AfterInitialize (length (searches s)))
          (afterInitialize (length (searches s))) s2"
      using None by (simp add: getBestMove_def Let_def s1_def s2_def split_beta)
    have i2: "sessionInv s2" "promisesOk s2" "current s2" "searchingOk s2"
      using sessionInv_initialize [OF i1(1)] promisesOk_step [OF i1(2), of CallInitialize]
        current_initialize [OF i1(3)] searchingOk_initialize [OF i1(1) i1(4)]
      by (simp_all add: s2_def)
    show ?thesis unfolding eq
      using i2(4) searchingOk_afterInitialize [OF i2] by (rule searchingOk_await)
  qed
qed

lemma searches_events [simp]:
  "searches (timerFires n s) = searches s"
  "searches (dispatchError w s) = searches s"
  "searches (setSkillLevel x s) = searches s"
  "searches (setHashSize x s) = searches s"
  "searches (setOption nm v s) = searches s"
proof -
  have h: "searches (handleError k t) = searches t" for k t
    by (simp add: handleError_def Let_def initializeWorker_frame)
  show "searches (timerFires n s) = searches s"
    by (simp add: timerFires_def timeoutCallback_def Let_def initializeWorker_frame)
  show "searches (dispatchError w s) = searches s"
    by (simp add: dispatchError_def fold_frame h)
  show "searches (setSkillLevel x s) = searches s"
    by (simp add: setSkillLevel_def Let_def split: option.splits)
  show "searches (setHashSize x s) = searches s"
    by (simp add: setHashSize_def Let_def split: option.splits)
  show "searches (setOption nm v s) = searches s"
    by (simp add: setOption_def split: option.splits)
qed

lemma searchingOk_timerFires:
  assumes ok: "searchingOk s"
  shows "searchingOk (timerFires n s)"
proof (cases "isReady s")
  case False
  with ok show ?thesis by (rule searchingOk_idle) simp
next
  case True
  have "searchingOk (updWorker n (\<lambda>l. l\<lparr>timeoutPending := False\<rparr>) s)"
    by (rule searchingOk_mono [OF ok]) (simp_all add: messageListeners_updWorker)
  thus ?thesis using True ok by (simp add: timerFires_def timeoutCallback_def)
qed

lemma dispatchError_ready:
  assumes inv: "sessionInv s" and r: "isReady s"
  shows "dispatchError w s = s"
proof (cases "alive s w")
  case False
  thus ?thesis by (auto simp: dispatchError_def alive_def)
next
  case True
  with sessionInvD(3) [OF inv] r have "errorListeners (workers s ! w) = []"
    unfolding readyQuiet_def by blast
  thus ?thesis by (simp add: dispatchError_def)
qed

lemma searchingOk_dispatchError:
  assumes inv: "sessionInv s" and ok: "searchingOk s"
  shows "searchingOk (dispatchError w s)"
proof (cases "isReady s")
  case False
  with ok show ?thesis by (rule searchingOk_idle) simp
next
  case True
  thus ?thesis using ok dispatchError_ready [OF inv] by simp
qed

lemma searchingOk_setters:
  assumes ok: "searchingOk s"
  shows "searchingOk (setSkillLevel x s)" "searchingOk (setHashSize x s)"
    "searchingOk (setOption nm v s)"
proof -
  have p: "searchingOk (postMessage w c t)" if "searchingOk t" for w c t
    by (rule searchingOk_mono [OF that]) simp_all
  show "searchingOk (setSkillLevel x s)"
    using ok p by (simp add: setSkillLevel_def Let_def split: option.splits)
  show "searchingOk (setHashSize x s)"
    using ok p by (simp add: setHashSize_def Let_def split: option.splits)
  show "searchingOk (setOption nm v s)"
    using ok p by (simp add: setOption_def split: option.splits)
qed

lemma searchingOk_step:
  assumes inv: "sessionInv s" and pr: "promisesOk s" and c: "current s"
    and ok: "searchingOk s" and e: "e \<noteq> CallDispose"
  shows "searchingOk (step e s)"
  using e
  by (cases e)
     (simp_all add: searchingOk_initialize [OF inv ok]
        searchingOk_getBestMove [OF inv pr c ok] searchingOk_setters [OF ok]
        searchingOk_timerFires [OF ok] searchingOk_dispatchError [OF inv ok]
        searchingOk_dispatchMessage [OF ok c])

subsection \<open>Failures of getBestMove\<close>

lemma failuresOk_frame:
  "searches s' = searches s \<Longrightarrow> throwingScripts s' = throwingScripts s \<Longrightarrow>
   failuresOk s' = failuresOk s"
  by (simp add: failuresOk_def constructorThrows_def)

lemma failuresOk_setStatus:
  assumes ok: "failuresOk s"
    and st: "\<And>e. st = Rejected e \<Longrightarrow> e = ConstructorError \<and> constructorThrows primaryUrl s"
  shows "failuresOk (setStatus i st s)"
  unfolding failuresOk_def
proof (intro ballI allI impI)
  fix q e
  assume q: "q \<in> set (searches (setStatus i st s))" and r: "status q = Rejected e"
  have c: "constructorThrows primaryUrl (setStatus i st s) = constructorThrows primaryUrl s"
    by (simp add: constructorThrows_def)
  from q have "q \<in> insert ((searches s ! i)\<lparr>status := st\<rparr>) (set (searches s))"
    unfolding setStatus_def using set_update_subset_insert [of "searches s" i] by auto
  thus "e = ConstructorError \<and> constructorThrows primaryUrl (setStatus i st s)"
    unfolding c using ok r st unfolding failuresOk_def by auto
qed

lemma failuresOk_setStatus_other:
  "failuresOk s \<Longrightarrow> \<forall>e. st \<noteq> Rejected e \<Longrightarrow> failuresOk (setStatus i st s)"
  by (rule failuresOk_setStatus) simp_all

lemma failuresOk_sendSearch:
  assumes ok: "failuresOk s" and w: "worker s = Some w"
  shows "failuresOk (sendSearch i s)"
proof -
  define s3 where "s3 = postMessage w (goCommand (opts (searches s ! i)))
      (postMessage w (PositionFen (fen (searches s ! i)))
        (updWorker w (\<lambda>l. l\<lparr>messageListeners := messageListeners l @ [OnMessage i]\<rparr>) s))"
  have eq: "sendSearch i s = setStatus i Searching s3"
    by (simp add: sendSearch_def w Let_def s3_def)
  have "failuresOk s3 = failuresOk s"
    by (rule failuresOk_frame) (simp_all add: s3_def)
  with ok show ?thesis unfolding eq by (simp add: failuresOk_setStatus_other)
qed

lemma failuresOk_continuations:
  assumes ok: "failuresOk s" and w: "worker s = Some w" and r: "isReady s"
  shows "failuresOk (fold runContinuation ks s)"
proof -
  have "failuresOk (fold runContinuation ks s) \<and> worker (fold runContinuation ks s) = Some w
      \<and> isReady (fold runContinuation ks s)"
  proof (rule fold_inv [where P = "\<lambda>t. failuresOk t \<and> worker t = Some w \<and> isReady t"])
    show "failuresOk s \<and> worker s = Some w \<and> isReady s" using ok w r by simp
  next
    fix k t assume a: "failuresOk t \<and> worker t = Some w \<and> isReady t"
    hence "failuresOk (runContinuation k t)"
      using failuresOk_sendSearch [of t w] by (cases k) (simp_all add: afterInitialize_def)
    moreover have "worker (runContinuation k t) = worker t"
      "isReady (runContinuation k t) = isReady t"
      by (rule handshakeD [OF handshake_runContinuation])+
    ultimately show "failuresOk (runContinuation k t) \<and> worker (runContinuation k t) = Some w
      \<and> isReady (runContinuation k t)"
      using a by simp
  qed
  thus ?thesis by simp
qed

lemma failuresOk_updates [simp]:
  "failuresOk (s\<lparr>initPromises := ps\<rparr>) = failuresOk s"
  "failuresOk (s\<lparr>isReady := b\<rparr>) = failuresOk s"
  "failuresOk (s\<lparr>pendingInit := p\<rparr>) = failuresOk s"
  "failuresOk (updWorker w f s) = failuresOk s"
  "failuresOk (postMessage w c s) = failuresOk s"
  "failuresOk (removeMessageListener w l s) = failuresOk s"
  "failuresOk (removeErrorListener w k s) = failuresOk s"
  by (simp_all add: failuresOk_def constructorThrows_def removeMessageListener_def
      removeErrorListener_def)

lemma failuresOk_handleMessage:
  assumes ok: "failuresOk s"
  shows "failuresOk (handleMessage n t s)"
proof (cases "worker s")
  case None
  thus ?thesis using ok by (simp add: handleMessage_def Let_def)
next
  case (Some cw)
  have "failuresOk (resolvePromise p u)" if "failuresOk u" "worker u = Some cw" "isReady u"
    for p u
    unfolding resolvePromise_def Let_def
    by (rule failuresOk_continuations [where w = cw]) (simp_all add: that)
  thus ?thesis using ok Some by (simp add: handleMessage_def Let_def)
qed

lemma failuresOk_onMessage:
  assumes ok: "failuresOk s"
  shows "failuresOk (onMessage j t s)"
  using ok by (simp add: onMessage_def failuresOk_setStatus_other split: option.splits)

lemma failuresOk_dispatchMessage:
  assumes ok: "failuresOk s"
  shows "failuresOk (dispatchMessage w d s)"
proof -
  have "failuresOk (callListener l t u)" if "failuresOk u" for l t u
    using that by (cases l) (simp_all add: failuresOk_handleMessage failuresOk_onMessage)
  thus ?thesis unfolding dispatchMessage_def using ok by (simp add: fold_inv)
qed

lemma failuresOk_await:
  assumes ok: "failuresOk s" and pr: "promisesOk s" and p: "p < length (initPromises s)"
    and b: "0 < resolveCalls (initPromises s ! p) \<Longrightarrow> failuresOk (body s)"
  shows "failuresOk (await p k body s)"
proof (cases "rejected (initPromises s ! p)")
  case (Some e)
  from p have "rejected (initPromises s ! p) \<in> set (rejections s)"
    unfolding rejections_def by simp
  with pr Some have "Some e = rejection s" unfolding promisesOk_def by auto
  hence "e = ConstructorError \<and> constructorThrows primaryUrl s"
    by (simp add: rejection_def split: if_splits)
  with ok have "failuresOk (setStatus (searchOf k) (Rejected e) s)"
    by (intro failuresOk_setStatus) simp_all
  thus ?thesis using Some by (simp add: await_def)
next
  case None
  thus ?thesis using ok b by (simp add: await_def)
qed

lemma failuresOk_afterInitialize:
  assumes inv: "sessionInv s" and pr: "promisesOk s" and ok: "failuresOk s"
    and w: "worker s = Some w"
  shows "failuresOk (afterInitialize sid s)"
proof (cases "isReady s")
  case True
  thus ?thesis using failuresOk_sendSearch [OF ok w] w by (simp add: afterInitialize_def)
next
  case False
  from sessionInv_pending [OF inv w] obtain p where p: "pendingInit s = Some p" by auto
  from pr p have lt: "p < length (initPromises s)" unfolding promisesOk_def by blast
  have "failuresOk (await p (AfterPendingInit sid) (sendSearch sid) s)"
    using ok pr lt failuresOk_sendSearch [OF ok w] by (rule failuresOk_await)
  thus ?thesis using False w p by (simp add: afterInitialize_def)
qed

lemma failuresOk_getBestMove:
  assumes inv: "sessionInv s" and pr: "promisesOk s" and ok: "failuresOk s"
  shows "failuresOk (snd (getBestMove f os s))"
proof -
  define s1 where "s1 = s\<lparr>searches := searches s @ [\<lparr>fen = f, opts = os, status = Suspended\<rparr>]\<rparr>"
  have ok1: "failuresOk s1"
    using ok by (auto simp: failuresOk_def s1_def constructorThrows_def)
  have i1: "sessionInv s1" "promisesOk s1"
    using inv pr by (simp_all add: s1_def sessionInv_searches_update)
  show ?thesis
  proof (cases "worker s")
    case (Some w)
    hence "snd (getBestMove f os s) = afterInitialize (length (searches s)) s1"
      by (simp add: getBestMove_def Let_def s1_def)
    moreover have "worker s1 = Some w" using Some by (simp add: s1_def)
    ultimately show ?thesis using failuresOk_afterInitialize [OF i1 ok1] by simp
  next
    case None
    define s2 where "s2 = snd (initialize s1)"
    define p where "p = fst (initialize s1)"
    have eq: "snd (getBestMove f os s) =
        await p (AfterInitialize (length (searches s))) (afterInitialize (length (searches s))) s2"
      using None by (simp add: getBestMove_def Let_def s1_def s2_def p_def split_beta)
    have i2: "sessionInv s2" "promisesOk s2"
      using sessionInv_initialize [OF i1(1)] promisesOk_step [OF i1(2), of CallInitialize]
      by (simp_all add: s2_def)
    have ok2: "failuresOk s2"
      using ok1 failuresOk_frame [of s2 s1] by (simp add: s2_def)
    have pi: "pendingInit s2 = Some p" by (simp add: s2_def p_def)
    with i2(2) have lt: "p < length (initPromises s2)" unfolding promisesOk_def by blast
    have "failuresOk (afterInitialize (length (searches s)) s2)"
      if r: "0 < resolveCalls (initPromises s2 ! p)"
    proof -
      have "isReady s2"
      proof (rule ccontr)
        assume "\<not> isReady s2"
        from pending_unresolved [OF i2 this pi] r show False by simp
      qed
      with soundD(3) [OF sessionInvD(1) [OF i2(1)]] obtain w where "worker s2 = Some w"
        by (cases "worker s2") auto
      with i2 ok2 show ?thesis by (rule failuresOk_afterInitialize)
    qed
    with ok2 i2(2) lt show ?thesis unfolding eq by (rule failuresOk_await)
  qed
qed

lemma failuresOk_step:
  assumes inv: "sessionInv s" and pr: "promisesOk s" and ok: "failuresOk s"
  shows "failuresOk (step e s)"
proof -
  have fr: "failuresOk (step e s)" if "searches (step e s) = searches s"
    using ok failuresOk_frame [OF that, of ] by simp
  show ?thesis
  proof (cases e)
    case (CallGetBestMove f os)
    thus ?thesis using failuresOk_getBestMove [OF inv pr ok] by simp
  next
    case (WorkerMessage w d)
    thus ?thesis using failuresOk_dispatchMessage [OF ok] by simp
  qed (rule fr, simp)+
qed

subsection \<open>Sessions that are not disposed\<close>

lemma session_run:
  assumes nd: "CallDispose \<notin> set evs"
    and i: "sessionInv s" "promisesOk s" "current s" "searchingOk s" "failuresOk s"
  shows "sessionInv (run evs s) \<and> promisesOk (run evs s) \<and> current (run evs s)
     \<and> searchingOk (run evs s) \<and> failuresOk (run evs s)"
  using assms unfolding run_def
proof (induction evs arbitrary: s)
  case Nil
  thus ?case by simp
next
  case (Cons e evs)
  from Cons.prems(1) have e: "e \<noteq> CallDispose" and nd: "CallDispose \<notin> set evs" by auto
  have "sessionInv (step e s)" using Cons.prems(2) e by (rule sessionInv_step)
  moreover have "promisesOk (step e s)" using Cons.prems(3) by (rule promisesOk_step)
  moreover have "current (step e s)" using Cons.prems(4) by (rule current_step)
  moreover have "searchingOk (step e s)"
    using Cons.prems(2,3,4,5) e by (rule searchingOk_step)
  moreover have "failuresOk (step e s)" using Cons.prems(2,3,6) by (rule failuresOk_step)
  ultimately show ?case using Cons.IH [OF nd, of "step e s"] by simp
qed

lemma session_newEngine:
  "sessionInv ((newEngine hc)\<lparr>throwingScripts := fs\<rparr>)"
  "promisesOk ((newEngine hc)\<lparr>throwingScripts := fs\<rparr>)"
  "current ((newEngine hc)\<lparr>throwingScripts := fs\<rparr>)"
  "searchingOk ((newEngine hc)\<lparr>throwingScripts := fs\<rparr>)"
  "failuresOk ((newEngine hc)\<lparr>throwingScripts := fs\<rparr>)"
  by (simp_all add: sessionInv_newEngine promisesOk_newEngine current_newEngine)
     (simp_all add: searchingOk_def failuresOk_def newEngine_def)

lemma searching_delivered:
  assumes sw: "startsWith text ''bestmove''"
    and inv: "sessionInv s" and c: "current s" and ok: "searchingOk s"
    and sid: "sid < length (searches s)" and se: "status (searches s ! sid) = Searching"
  shows "\<exists>w. worker s = Some w \<and>
           status (searches (step (WorkerMessage w (StringData text)) s) ! sid) =
             Resolved (parseBestMove text)"
proof -
  from ok sid se obtain w where r: "isReady s" and w: "worker s = Some w"
    and l: "OnMessage sid \<in> set (messageListeners (workers s ! w))"
    unfolding searchingOk_def by blast
  from c w have a: "alive s w" unfolding current_def by blast
  with sessionInvD(3) [OF inv] r have q: "handshakeListeners s w = []"
    unfolding readyQuiet_def by blast
  from dispatch_bestmove [OF sw w a q sid l] w show ?thesis by simp
qed

lemma session_newEngineIn:
  "sessionInv (newEngineIn fs hc)" "promisesOk (newEngineIn fs hc)"
  "current (newEngineIn fs hc)" "searchingOk (newEngineIn fs hc)"
  "failuresOk (newEngineIn fs hc)"
  unfolding newEngineIn_def by (rule session_newEngine)+

lemma session_reached:
  assumes nd: "CallDispose \<notin> set evs"
  shows "sessionInv (run evs (newEngineIn fs hc))" "promisesOk (run evs (newEngineIn fs hc))"
    "current (run evs (newEngineIn fs hc))" "searchingOk (run evs (newEngineIn fs hc))"
    "failuresOk (run evs (newEngineIn fs hc))"
  using session_run [OF nd session_newEngineIn, of fs hc] by blast+

lemma throwingScripts_newEngineIn [simp]: "throwingScripts (newEngineIn fs hc) = fs"
  by (simp add: newEngineIn_def)

lemma pendingSession_newEngineIn: "pendingSession (newEngineIn fs hc)"
  by (simp add: pendingSession_def newEngineIn_def newEngine_def resolveCounts_def)

subsection \<open>A primary worker that cannot be constructed\<close>

lemma unlaunched_step:
  assumes c: "constructorThrows primaryUrl s" and ws: "workers s = []"
    and w: "worker s = None" and p: "pendingSession s"
  shows "workers (step e s) = [] \<and> worker (step e s) = None \<and> pendingSession (step e s)"
proof (cases e)
  case (WorkerMessage n d)
  hence "step e s = s" using ws by (simp add: dispatchMessage_def)
  thus ?thesis using ws w p by simp
next
  case CallInitialize
  have "length (workers (snd (initialize s))) = 0" using c ws by (simp add: initialize_launches)
  moreover have "worker (snd (initialize s)) = None"
    using c w
    by (cases "pendingInit s")
       (simp_all add: initialize_pending initialize_fresh_throws releaseWorker_fields)
  ultimately show ?thesis using CallInitialize pendingSession_step [OF p, of e] by simp
next
  case (CallGetBestMove f os)
  have a: "length (workers (await q k body t)) = length (workers t) \<and>
           worker (await q k body t) = worker t"
    if "\<And>u. handshake (body u) = handshake u" for q k body t
    using handshakeD(1,6) [OF handshake_await, of body q k t] that by simp
  have "length (workers (snd (initialize t))) = 0 \<and> worker (snd (initialize t)) = None"
    if "t = s\<lparr>searches := qs\<rparr>" for t qs
    using c ws w that
    by (cases "pendingInit s")
       (simp_all add: initialize_pending initialize_fresh_throws releaseWorker_fields
          constructorThrows_def)
  hence "length (workers (snd (getBestMove f os s))) = 0 \<and> worker (snd (getBestMove f os s)) = None"
    using w by (simp add: getBestMove_def Let_def split_beta a)
  thus ?thesis using CallGetBestMove pendingSession_step [OF p, of e] by simp
next
  case (CallSetSkillLevel x)
  thus ?thesis using ws w pendingSession_step [OF p, of e] setSkillLevel_silent [of s x] by simp
next
  case (CallSetHashSize x)
  thus ?thesis using ws w p setHashSize_silent [of s x] by simp
next
  case (CallSetOption nm v)
  thus ?thesis using ws w p by (simp add: setOption_def)
next
  case CallDispose
  thus ?thesis using ws w p by (simp add: dispose_absent)
next
  case (TimerFires n)
  thus ?thesis using ws w p by (simp add: timerFires_def)
next
  case (WorkerError n)
  thus ?thesis using ws w p by (simp add: dispatchError_def)
qed

lemma unlaunched_run:
  assumes c: "constructorThrows primaryUrl s" and ws: "workers s = []"
    and w: "worker s = None" and p: "pendingSession s"
  shows "workers (run evs s) = [] \<and> pendingSession (run evs s)"
  using assms unfolding run_def
proof (induction evs arbitrary: s)
  case Nil
  thus ?case by simp
next
  case (Cons e evs)
  have "constructorThrows primaryUrl (step e s)"
    using Cons.prems(1) by (simp add: constructorThrows_def)
  with Cons.IH [of "step e s"] unlaunched_step [OF Cons.prems, of e] show ?case by simp
qed

subsection \<open>Live workers in any environment\<close>

lemma singleLive_handshake:
  assumes "handshake s' = handshake s"
  shows "singleLive s' = singleLive s"
  unfolding singleLive_def alive_handshake [OF assms] handshakeD(1) [OF assms] ..

lemma singleLive_updates [simp]:
  "singleLive (s\<lparr>pendingInit := p\<rparr>) = singleLive s"
  "singleLive (s\<lparr>initPromises := ps\<rparr>) = singleLive s"
  "singleLive (s\<lparr>searches := qs\<rparr>) = singleLive s"
  "singleLive (s\<lparr>isReady := b\<rparr>) = singleLive s"
  by (simp_all add: singleLive_def)

lemma singleLiveD: "singleLive s \<Longrightarrow> alive s n \<Longrightarrow> worker s = Some n"
  unfolding singleLive_def by blast

lemma singleLive_relaunch:
  assumes "singleLive s"
  shows "singleLive (relaunch p url b s)"
  unfolding singleLive_def
proof (intro allI impI)
  fix n assume "alive (relaunch p url b s) n"
  hence "n = length (workers s)" using singleLiveD [OF assms] by (rule alive_relaunch)
  thus "worker (relaunch p url b s) = Some n" by (simp add: relaunch_fields)
qed

lemma singleLive_releaseWorker:
  assumes "singleLive s"
  shows "singleLive (releaseWorker s)"
  unfolding singleLive_def using alive_releaseWorker [OF _ singleLiveD [OF assms]] by blast

lemma singleLive_initializeWorker:
  "singleLive s \<Longrightarrow> singleLive (snd (initializeWorker p url b s))"
  by (cases "constructorThrows url s")
     (simp_all add: initializeWorker_returns initializeWorker_throws singleLive_relaunch
        singleLive_releaseWorker)

lemma singleLive_initialize: "singleLive s \<Longrightarrow> singleLive (snd (initialize s))"
  by (simp add: initialize_def Let_def split_beta singleLive_initializeWorker
      split: option.splits)

lemma singleLive_getBestMove: "singleLive s \<Longrightarrow> singleLive (snd (getBestMove f os s))"
  by (simp add: getBestMove_def Let_def split_beta singleLive_initialize
      singleLive_handshake [OF handshake_await] singleLive_handshake [OF handshake_afterInitialize])

lemma singleLive_updWorker:
  "(\<And>l. terminated (f l) = terminated l) \<Longrightarrow> singleLive (updWorker w f s) = singleLive s"
  by (simp add: singleLive_def alive_updWorker)

lemma singleLive_timerFires: "singleLive s \<Longrightarrow> singleLive (timerFires n s)"
  by (simp add: timerFires_def timeoutCallback_def Let_def singleLive_initializeWorker
      singleLive_updWorker)

lemma singleLive_dispatchError: "singleLive s \<Longrightarrow> singleLive (dispatchError w s)"
  unfolding dispatchError_def
  by (simp add: fold_inv handleError_def Let_def singleLive_initializeWorker)

lemma singleLive_callListener: "singleLive (callListener l t s) = singleLive s"
  by (simp add: singleLive_def)

lemma singleLive_dispatchMessage: "singleLive s \<Longrightarrow> singleLive (dispatchMessage w d s)"
  unfolding dispatchMessage_def by (simp add: fold_inv singleLive_callListener)

lemma singleLive_setSkillLevel: "singleLive (setSkillLevel x s) = singleLive s"
  by (simp add: singleLive_def)

lemma dispose_releases:
  assumes "singleLive s"
  shows "\<not> alive (dispose s) n"
proof (cases "worker s")
  case None
  with singleLiveD [OF assms, of n] show ?thesis by (auto simp: dispose_def)
next
  case (Some w)
  hence "dispose s = (releaseWorker s)\<lparr>isReady := False, pendingInit := None\<rparr>"
    by (simp add: dispose_def releaseWorker_def)
  thus ?thesis using alive_releaseWorker [OF _ singleLiveD [OF assms], of n] by auto
qed

lemma singleLive_dispose: "singleLive s \<Longrightarrow> singleLive (dispose s)"
  using dispose_releases [of s] unfolding singleLive_def [of "dispose s"] by blast

lemma singleLive_step: "singleLive s \<Longrightarrow> singleLive (step e s)"
  by (cases e)
     (simp_all add: singleLive_initialize singleLive_getBestMove singleLive_setSkillLevel
        singleLive_handshake [OF handshake_setHashSize]
        singleLive_handshake [OF handshake_setOption]
        singleLive_dispose singleLive_timerFires singleLive_dispatchError
        singleLive_dispatchMessage)

lemma singleLive_run: "singleLive s \<Longrightarrow> singleLive (run evs s)"
  unfolding run_def by (induction evs arbitrary: s) (simp_all add: singleLive_step)

lemma singleLive_newEngineIn: "singleLive (newEngineIn fs hc)"
  by (simp add: singleLive_def alive_def newEngineIn_def newEngine_def)

lemma dispose_worker:
  "worker s \<noteq> None \<Longrightarrow> \<not> isReady (dispose s) \<and> pendingInit (dispose s) = None"
  by (auto simp: dispose_def)

subsection \<open>A call on a ready session\<close>

lemma run_append: "run (evs @ evs') s = run evs' (run evs s)"
  by (simp add: run_def)

lemma ready_call_delivered:
  assumes sw: "startsWith text ''bestmove''" and nd: "CallDispose \<notin> set evs"
    and r: "isReady (run evs (newEngineIn fs hc))"
  shows "\<exists>w. worker (run evs (newEngineIn fs hc)) = Some w
           \<and> status (searches (run (evs @ [CallGetBestMove f os]) (newEngineIn fs hc))
                 ! length (searches (run evs (newEngineIn fs hc)))) = Searching
           \<and> status (searches (run (evs @ [CallGetBestMove f os,
                   WorkerMessage w (StringData text)]) (newEngineIn fs hc))
                 ! length (searches (run evs (newEngineIn fs hc)))) =
               Resolved (parseBestMove text)"
proof -
  define s where "s = run evs (newEngineIn fs hc)"
  define s' where "s' = run (evs @ [CallGetBestMove f os]) (newEngineIn fs hc)"
  have s': "s' = snd (getBestMove f os s)" by (simp add: s'_def s_def run_def)
  have nd': "CallDispose \<notin> set (evs @ [CallGetBestMove f os])" using nd by simp
  note i = session_reached [OF nd, of fs hc, folded s_def]
  note i' = session_reached [OF nd', of fs hc, folded s'_def]
  from r soundD(3) [OF sessionInvD(1) [OF i(1)]] obtain w where w: "worker s = Some w"
    unfolding s_def by (cases "worker (run evs (newEngineIn fs hc))") auto
  have eq: "s' = sendSearch (length (searches s))
       (s\<lparr>searches := searches s @ [\<lparr>fen = f, opts = os, status = Suspended\<rparr>]\<rparr>)"
    unfolding s' using w r by (simp add: getBestMove_ready s_def)
  have len: "length (searches s') = Suc (length (searches s))"
    and se: "status (searches s' ! length (searches s)) = Searching"
    and w': "worker s' = Some w"
    unfolding eq using w by (simp_all add: sendSearch_def Let_def setStatus_def)
  from len have lt: "length (searches s) < length (searches s')" by simp
  from searching_delivered [OF sw i'(1,3,4) lt se] w'
  have "status (searches (step (WorkerMessage w (StringData text)) s') ! length (searches s)) =
          Resolved (parseBestMove text)"
    by simp
  moreover have "run (evs @ [CallGetBestMove f os, WorkerMessage w (StringData text)])
        (newEngineIn fs hc) = step (WorkerMessage w (StringData text)) s'"
    by (simp add: s'_def run_def)
  ultimately show ?thesis using w se unfolding s_def s'_def by simp
qed

lemma getBestMove_waiting:
  assumes w: "worker s = None" and p: "pendingInit s = Some p"
  shows "status (searches (snd (getBestMove f os s)) ! length (searches s)) =
          (case rejected (initPromises s ! p) of
             Some e \<Rightarrow> Rejected e
           | None \<Rightarrow>
               if 0 < resolveCalls (initPromises s ! p)
               then Rejected (Error ''Stockfish worker failed to initialize'')
               else Suspended)"
  using w p
  by (simp add: getBestMove_def initialize_def await_def afterInitialize_def setStatus_def
      Let_def split: option.splits)

section \<open>The claims\<close>

text \<open>
  Claim C6. For every integer input, \<open>setSkillLevel\<close> stores the input clamped to
  \<open>[0, 20]\<close> and, when a worker exists and is ready, transmits exactly that value;
  \<open>setHashSize\<close> transmits the input clamped to \<open>[16, 4096]\<close>. When there is no
  ready worker nothing is transmitted. The inputs \<open>-5\<close>, \<open>99\<close>, \<open>1\<close> and
  \<open>999999\<close> give \<open>0\<close>, \<open>20\<close>, \<open>16\<close> and \<open>4096\<close>.
\<close>

theorem setters_clamp_integers:
  fixes i :: int
  shows "currentSkillLevel (setSkillLevel (of_int i) s) = max 0 (min 20 i)
    \<and> 0 \<le> currentSkillLevel (setSkillLevel (of_int i) s)
    \<and> currentSkillLevel (setSkillLevel (of_int i) s) \<le> 20
    \<and> (worker s = Some w \<and> w < length (workers s) \<and> isReady s \<longrightarrow>
         posted (workers (setSkillLevel (of_int i) s) ! w) =
           posted (workers s ! w) @ [SetOption ''Skill Level'' (NumValue (max 0 (min 20 i)))]
       \<and> posted (workers (setHashSize (of_int i) s) ! w) =
           posted (workers s ! w) @ [SetOption ''Hash'' (NumValue (max 16 (min 4096 i)))]
       \<and> 16 \<le> max 16 (min 4096 i) \<and> max 16 (min 4096 i) \<le> 4096)
    \<and> (worker s = None \<or> \<not> isReady s \<longrightarrow>
         workers (setSkillLevel (of_int i) s) = workers s \<and> setHashSize (of_int i) s = s)
    \<and> currentSkillLevel (setSkillLevel (-5) s) = 0
    \<and> currentSkillLevel (setSkillLevel 99 s) = 20
    \<and> last (posted (workers (setSkillLevel (-5) readyEngine) ! 0)) = SetOption ''Skill Level'' (NumValue 0)
    \<and> last (posted (workers (setSkillLevel 99 readyEngine) ! 0)) = SetOption ''Skill Level'' (NumValue 20)
    \<and> last (posted (workers (setHashSize 1 readyEngine) ! 0)) = SetOption ''Hash'' (NumValue 16)
    \<and> last (posted (workers (setHashSize 999999 readyEngine) ! 0)) = SetOption ''Hash'' (NumValue 4096)
    \<and> render (SetOption ''Skill Level'' (NumValue 0)) = ''setoption name Skill Level value 0''
    \<and> render (SetOption ''Hash'' (NumValue 4096)) = ''setoption name Hash value 4096''"
proof -
  have r: "worker readyEngine = Some 0" "0 < length (workers readyEngine)" "isReady readyEngine"
    by (simp_all add: readyEngine_fields)
  have ex1: "last (posted (workers (setSkillLevel (-5) readyEngine) ! 0)) = SetOption ''Skill Level'' (NumValue 0)"
    by (simp add: setSkillLevel_posted [OF r])
  have ex2: "last (posted (workers (setSkillLevel 99 readyEngine) ! 0)) = SetOption ''Skill Level'' (NumValue 20)"
    by (simp add: setSkillLevel_posted [OF r])
  have ex3: "last (posted (workers (setHashSize 1 readyEngine) ! 0)) = SetOption ''Hash'' (NumValue 16)"
    by (simp add: setHashSize_posted [OF r])
  have ex4: "last (posted (workers (setHashSize 999999 readyEngine) ! 0)) = SetOption ''Hash'' (NumValue 4096)"
    by (simp add: setHashSize_posted [OF r])
  have rd: "render (SetOption ''Skill Level'' (NumValue 0)) = ''setoption name Skill Level value 0''"
    "render (SetOption ''Hash'' (NumValue 4096)) = ''setoption name Hash value 4096''"
    by (simp_all add: showInt_def showNat.simps)
  have silent: "worker s = None \<or> \<not> isReady s \<longrightarrow>
         workers (setSkillLevel (of_int i) s) = workers s \<and> setHashSize (of_int i) s = s"
    using setSkillLevel_silent setHashSize_silent by blast
  have sent: "worker s = Some w \<and> w < length (workers s) \<and> isReady s \<longrightarrow>
         posted (workers (setSkillLevel (of_int i) s) ! w) =
           posted (workers s ! w) @ [SetOption ''Skill Level'' (NumValue (max 0 (min 20 i)))]
       \<and> posted (workers (setHashSize (of_int i) s) ! w) =
           posted (workers s ! w) @ [SetOption ''Hash'' (NumValue (max 16 (min 4096 i)))]
       \<and> 16 \<le> max 16 (min 4096 i) \<and> max 16 (min 4096 i) \<le> 4096"
    using setSkillLevel_posted [of s w "of_int i"] setHashSize_posted [of s w "of_int i"] by simp
  show ?thesis
    using ex1 ex2 ex3 ex4 rd silent sent by simp
qed

theorem setters_clamp_integers_witness:
  "worker readyEngine = Some 0 \<and> 0 < length (workers readyEngine) \<and> isReady readyEngine
   \<and> posted (workers (setSkillLevel 99 readyEngine) ! 0) =
       [Uci, UciNewGame, SetOption ''Threads'' (NumValue 2),
        SetOption ''Skill Level'' (NumValue 20), SetOption ''Ponder'' (StrValue ''false''),
        IsReady, SetOption ''Skill Level'' (NumValue 20)]
   \<and> posted (workers (setHashSize 1 readyEngine) ! 0) =
       [Uci, UciNewGame, SetOption ''Threads'' (NumValue 2),
        SetOption ''Skill Level'' (NumValue 20), SetOption ''Ponder'' (StrValue ''false''),
        IsReady, SetOption ''Hash'' (NumValue 16)]
   \<and> workers (setSkillLevel 99 (newEngine None)) = workers (newEngine None)"
  using setters_clamp_integers [of 99 readyEngine 0] setters_clamp_integers [of 1 readyEngine 0]
    setters_clamp_integers [of 99 "newEngine None" 0]
  by (simp add: readyEngine_fields newEngine_def)


text \<open>
  Claim C10. For every real input, \<open>setSkillLevel\<close> and \<open>setHashSize\<close> first take
  the floor and then clamp: \<open>setSkillLevel(10.9)\<close> stores and transmits \<open>10\<close>,
  \<open>setHashSize(100.7)\<close> transmits \<open>100\<close>. In every execution that starts from a
  new engine the stored skill level is an integer between \<open>0\<close> and \<open>20\<close>.
\<close>

theorem setters_floor_then_clamp:
  fixes x :: real
  shows "currentSkillLevel (setSkillLevel x s) = max 0 (min 20 \<lfloor>x\<rfloor>)
    \<and> (worker s = Some w \<and> w < length (workers s) \<and> isReady s \<longrightarrow>
         posted (workers (setSkillLevel x s) ! w) =
           posted (workers s ! w) @ [SetOption ''Skill Level'' (NumValue (max 0 (min 20 \<lfloor>x\<rfloor>)))]
       \<and> posted (workers (setHashSize x s) ! w) =
           posted (workers s ! w) @ [SetOption ''Hash'' (NumValue (max 16 (min 4096 \<lfloor>x\<rfloor>)))])
    \<and> currentSkillLevel (setSkillLevel 10.9 s) = 10
    \<and> last (posted (workers (setSkillLevel 10.9 readyEngine) ! 0)) = SetOption ''Skill Level'' (NumValue 10)
    \<and> last (posted (workers (setHashSize 100.7 readyEngine) ! 0)) = SetOption ''Hash'' (NumValue 100)
    \<and> 0 \<le> currentSkillLevel (run evs (newEngine hc))
    \<and> currentSkillLevel (run evs (newEngine hc)) \<le> 20"
proof -
  have r: "worker readyEngine = Some 0" "0 < length (workers readyEngine)" "isReady readyEngine"
    by (simp_all add: readyEngine_fields)
  have ex1: "last (posted (workers (setSkillLevel 10.9 readyEngine) ! 0)) = SetOption ''Skill Level'' (NumValue 10)"
    by (simp add: setSkillLevel_posted [OF r])
  have ex2: "last (posted (workers (setHashSize 100.7 readyEngine) ! 0)) = SetOption ''Hash'' (NumValue 100)"
    by (simp add: setHashSize_posted [OF r])
  have inv: "0 \<le> currentSkillLevel (run evs (newEngine hc)) \<and> currentSkillLevel (run evs (newEngine hc)) \<le> 20"
    by (rule skill_bounds_run) (simp add: newEngine_def)
  have sent: "worker s = Some w \<and> w < length (workers s) \<and> isReady s \<longrightarrow>
         posted (workers (setSkillLevel x s) ! w) =
           posted (workers s ! w) @ [SetOption ''Skill Level'' (NumValue (max 0 (min 20 \<lfloor>x\<rfloor>)))]
       \<and> posted (workers (setHashSize x s) ! w) =
           posted (workers s ! w) @ [SetOption ''Hash'' (NumValue (max 16 (min 4096 \<lfloor>x\<rfloor>)))]"
    using setSkillLevel_posted [of s w x] setHashSize_posted [of s w x] by simp
  show ?thesis using ex1 ex2 inv sent by simp
qed

theorem setters_floor_then_clamp_witness:
  "worker readyEngine = Some 0 \<and> 0 < length (workers readyEngine) \<and> isReady readyEngine
   \<and> posted (workers (setSkillLevel 10.9 readyEngine) ! 0) =
       [Uci, UciNewGame, SetOption ''Threads'' (NumValue 2),
        SetOption ''Skill Level'' (NumValue 20), SetOption ''Ponder'' (StrValue ''false''),
        IsReady, SetOption ''Skill Level'' (NumValue 10)]
   \<and> posted (workers (setHashSize 100.7 readyEngine) ! 0) =
       [Uci, UciNewGame, SetOption ''Threads'' (NumValue 2),
        SetOption ''Skill Level'' (NumValue 20), SetOption ''Ponder'' (StrValue ''false''),
        IsReady, SetOption ''Hash'' (NumValue 100)]
   \<and> currentSkillLevel (run [CallSetSkillLevel (-3.5), CallInitialize] (newEngine None)) = 0"
  using setters_floor_then_clamp [of "10.9" readyEngine 0 "[CallSetSkillLevel (-3.5), CallInitialize]" None]
    setters_floor_then_clamp [of "100.7" readyEngine 0 "[]" None]
  by (simp add: readyEngine_fields engine_defs)


text \<open>
  Claim C9, as stated, fails: \<open>dispose\<close> does not clear the fallback diagnostic. After
  the timer has switched the session to the single-threaded worker,
  \<open>usingSingleThreaded\<close> is still true once the session has been disposed.
\<close>

theorem dispose_keeps_fallback_flag:
  "worker (run [CallInitialize, TimerFires 0] (newEngine None)) = Some 1
   \<and> usingSingleThreaded (run [CallInitialize, TimerFires 0] (newEngine None))
   \<and> usingSingleThreaded (dispose (run [CallInitialize, TimerFires 0] (newEngine None)))"
  by (simp add: usingSingleThreaded_def engine_defs)


text \<open>
  Claim C9, amended. In every state a session can reach, in any environment, \<open>dispose\<close>
  leaves no worker and no live channel, and it keeps the fallback diagnostic and the
  skill level as they were. When the session has a worker, \<open>dispose\<close> also leaves it
  not ready and without a pending initialization; so it does in every reachable state
  when every worker can be constructed. Disposing twice is the same as disposing once,
  and \<open>dispose\<close> without a worker changes nothing: after a call of \<open>initialize\<close> in
  which the constructor of the primary worker has thrown there is no worker, and the
  rejected promise stays in \<open>pendingInit\<close>.
\<close>

theorem dispose_resets_session:
  "worker (dispose (run evs (newEngine hc))) = None
   \<and> \<not> isReady (dispose (run evs (newEngine hc)))
   \<and> pendingInit (dispose (run evs (newEngine hc))) = None
   \<and> \<not> alive (dispose (run evs (newEngine hc))) n
   \<and> usingSingleThreaded (dispose (run evs (newEngine hc))) = usingSingleThreaded (run evs (newEngine hc))
   \<and> currentSkillLevel (dispose (run evs (newEngine hc))) = currentSkillLevel (run evs (newEngine hc))
   \<and> dispose (dispose s) = dispose s
   \<and> (worker s = None \<longrightarrow> dispose s = s)
   \<and> worker (dispose s) = None
   \<and> (worker s \<noteq> None \<longrightarrow> \<not> isReady (dispose s) \<and> pendingInit (dispose s) = None)
   \<and> usingSingleThreaded (dispose s) = usingSingleThreaded s
   \<and> currentSkillLevel (dispose s) = currentSkillLevel s
   \<and> \<not> alive (dispose (run evs (newEngineIn fs hc))) n
   \<and> pendingInit (dispose (run [CallInitialize] (newEngineIn [primaryUrl] None))) = Some 0"
proof -
  have wf: "wellFormed (run evs (newEngine hc))"
    by (rule wellFormed_run [OF wellFormed_newEngine])
  have a: "worker (dispose (run evs (newEngine hc))) = None
   \<and> \<not> isReady (dispose (run evs (newEngine hc)))
   \<and> pendingInit (dispose (run evs (newEngine hc))) = None
   \<and> \<not> alive (dispose (run evs (newEngine hc))) n
   \<and> usingSingleThreaded (dispose (run evs (newEngine hc))) = usingSingleThreaded (run evs (newEngine hc))
   \<and> currentSkillLevel (dispose (run evs (newEngine hc))) = currentSkillLevel (run evs (newEngine hc))
   \<and> dispose (dispose s) = dispose s
   \<and> (worker s = None \<longrightarrow> dispose s = s)"
    using dispose_reset [OF wf] dispose_not_alive [OF wf] dispose_idem dispose_absent
    by (simp add: usingSingleThreaded_def)
  have b: "worker s \<noteq> None \<longrightarrow> \<not> isReady (dispose s) \<and> pendingInit (dispose s) = None"
    using dispose_worker by blast
  have c: "\<not> alive (dispose (run evs (newEngineIn fs hc))) n"
    by (rule dispose_releases [OF singleLive_run [OF singleLive_newEngineIn]])
  have d: "pendingInit (dispose (run [CallInitialize] (newEngineIn [primaryUrl] None))) = Some 0"
    by (simp add: engine_defs)
  have e: "worker (dispose s) = None" "usingSingleThreaded (dispose s) = usingSingleThreaded s"
    "currentSkillLevel (dispose s) = currentSkillLevel s"
    by (simp_all add: usingSingleThreaded_def)
  from a b c d e show ?thesis by blast
qed

theorem dispose_resets_session_witness:
  "worker (newEngine None) = None \<and> dispose (newEngine None) = newEngine None
   \<and> worker (dispose readyEngine) = None \<and> \<not> isReady (dispose readyEngine)
   \<and> pendingInit (dispose readyEngine) = None \<and> \<not> alive (dispose readyEngine) 0
   \<and> worker (snd (getBestMove ''startpos'' None readyEngine)) \<noteq> None
   \<and> \<not> isReady (dispose (snd (getBestMove ''startpos'' None readyEngine)))
   \<and> pendingInit (dispose (snd (getBestMove ''startpos'' None readyEngine))) = None"
proof -
  note a = dispose_resets_session [of "[CallInitialize, WorkerMessage 0 (StringData ''uciok''),
          WorkerMessage 0 (StringData ''readyok'')]" None 0 "newEngine None" "[]",
      folded readyEngine_def]
  note b = dispose_resets_session [of "[]" None 0
      "snd (getBestMove ''startpos'' None readyEngine)" "[]"]
  have w: "worker (newEngine None) = None" by (simp add: newEngine_def)
  have g: "worker (snd (getBestMove ''startpos'' None readyEngine)) \<noteq> None"
    by (simp add: searching_fields)
  from a w b g show ?thesis by simp
qed


text \<open>
  Claim C1. \<open>initialize\<close> is memoized: while \<open>pendingInit\<close> holds a promise, a call
  returns that promise and changes nothing. Hence a second call right after the first,
  or after any events other than \<open>dispose\<close>, returns the promise of the first call, and
  the two calls together launch exactly one worker. When the constructor of the worker
  throws, the first call launches none and returns a rejected promise, and the second
  call returns that promise without another attempt.
\<close>


theorem initialize_memoized:
  "(pendingInit s = Some p \<longrightarrow> initialize s = (p, s))
   \<and> initialize (snd (initialize s)) = (fst (initialize s), snd (initialize s))
   \<and> (CallDispose \<notin> set evs \<longrightarrow>
        initialize (run evs (snd (initialize s))) =
          (fst (initialize s), run evs (snd (initialize s))))
   \<and> (pendingInit s = None \<longrightarrow>
        length (workers (snd (initialize (snd (initialize s))))) =
          (if constructorThrows primaryUrl s then length (workers s)
           else Suc (length (workers s))))
   \<and> (pendingInit s = None \<longrightarrow>
        rejected (initPromises (snd (initialize (snd (initialize s)))) ! fst (initialize s)) =
          (if constructorThrows primaryUrl s then Some ConstructorError else None))"
proof -
  have a: "pendingInit s = Some p \<longrightarrow> initialize s = (p, s)"
    by (simp add: initialize_pending)
  have b: "initialize (snd (initialize s)) = (fst (initialize s), snd (initialize s))"
    by (simp add: initialize_again)
  have c: "CallDispose \<notin> set evs \<longrightarrow>
        initialize (run evs (snd (initialize s))) =
          (fst (initialize s), run evs (snd (initialize s)))"
  proof
    assume nd: "CallDispose \<notin> set evs"
    have "pendingInit (snd (initialize s)) = Some (fst (initialize s))" by simp
    from pendingInit_run [OF this nd] show "initialize (run evs (snd (initialize s))) =
          (fst (initialize s), run evs (snd (initialize s)))"
      by (rule initialize_pending)
  qed
  have d: "pendingInit s = None \<longrightarrow>
        length (workers (snd (initialize (snd (initialize s))))) =
          (if constructorThrows primaryUrl s then length (workers s)
           else Suc (length (workers s)))"
    by (simp add: initialize_again initialize_launches)
  have e: "pendingInit s = None \<longrightarrow>
        rejected (initPromises (snd (initialize (snd (initialize s)))) ! fst (initialize s)) =
          (if constructorThrows primaryUrl s then Some ConstructorError else None)"
  proof -
    have eq: "snd (initialize (snd (initialize s))) = snd (initialize s)"
      by (simp add: initialize_again)
    show ?thesis unfolding eq
      by (cases "constructorThrows primaryUrl s")
         (simp_all add: initialize_fresh initialize_fresh_throws relaunch_fields)
  qed
  from a b c d e show ?thesis by blast
qed

theorem initialize_memoized_witness:
  "pendingInit (snd (initialize (newEngine None))) = Some 0
   \<and> initialize (snd (initialize (newEngine None))) = (0, snd (initialize (newEngine None)))
   \<and> CallDispose \<notin> set [WorkerMessage 0 (StringData ''uciok''), TimerFires 0]
   \<and> fst (initialize (run [WorkerMessage 0 (StringData ''uciok''), TimerFires 0]
            (snd (initialize (newEngine None))))) = 0
   \<and> pendingInit (newEngine None) = None
   \<and> length (workers (snd (initialize (snd (initialize (newEngine None)))))) = 1
   \<and> pendingInit (newEngineIn [primaryUrl] None) = None
   \<and> length (workers (snd (initialize (snd (initialize (newEngineIn [primaryUrl] None)))))) = 0
   \<and> rejected (initPromises (snd (initialize (snd (initialize (newEngineIn [primaryUrl] None)))))
         ! 0) = Some ConstructorError"
proof -
  have f: "fst (initialize (newEngine None)) = 0"
    "fst (initialize (newEngineIn [primaryUrl] None)) = 0"
    "pendingInit (newEngine None) = None" "pendingInit (newEngineIn [primaryUrl] None) = None"
    "\<not> constructorThrows primaryUrl (newEngine None)"
    "constructorThrows primaryUrl (newEngineIn [primaryUrl] None)"
    "workers (newEngine None) = []" "workers (newEngineIn [primaryUrl] None) = []"
    by (simp_all add: fst_initialize newEngine_def newEngineIn_def constructorThrows_def)
  show ?thesis
    using initialize_memoized [of "snd (initialize (newEngine None))" 0
        "[WorkerMessage 0 (StringData ''uciok''), TimerFires 0]"]
      initialize_memoized [of "newEngine None" 0
        "[WorkerMessage 0 (StringData ''uciok''), TimerFires 0]"]
      initialize_memoized [of "newEngineIn [primaryUrl] None" 0 "[]"]
    by (simp add: f initialize_again)
qed


text \<open>
  Claim C7, as stated, fails: a \<open>depth\<close> that is present but \<open>0\<close> does not take
  precedence. The test \<open>if (options?.depth)\<close> is a truthiness test, so the call sends a
  move-time search with the default of 500 ms.
\<close>

theorem depth_zero_sends_movetime:
  "posted (workers (snd (getBestMove ''8/8/8/8/8/8/8/K6k w - - 0 1''
       (Some \<lparr>movetimeMs = None, depth = Some 0\<rparr>) readyEngine)) ! 0) =
     posted (workers readyEngine ! 0) @
       [PositionFen ''8/8/8/8/8/8/8/K6k w - - 0 1'', GoMovetime 500]"
  by (simp add: getBestMove_posted readyEngine_fields goCommand_def optDepth_def optMovetimeMs_def)


text \<open>
  Claim C7, amended. A call of \<open>getBestMove\<close> on a ready session sends the position
  command and then the search command. The search is depth-limited when \<open>depth\<close> is
  present and not \<open>0\<close>; when \<open>depth\<close> is absent or \<open>0\<close> it is a move-time search
  with the given \<open>movetimeMs\<close>, or 500 when none is given. A call that had to wait
  for the initialization sends the same two commands, in the same order, when it
  resumes (\<open>sendSearch\<close>).
\<close>

theorem getBestMove_search_command:
  "(worker s = Some w \<and> w < length (workers s) \<and> isReady s \<longrightarrow>
      (\<forall>d. optDepth os = Some d \<and> d \<noteq> 0 \<longrightarrow>
         posted (workers (snd (getBestMove f os s)) ! w) =
           posted (workers s ! w) @ [PositionFen f, GoDepth d])
    \<and> (optDepth os = None \<or> optDepth os = Some 0 \<longrightarrow>
         (\<forall>t. optMovetimeMs os = Some t \<longrightarrow>
            posted (workers (snd (getBestMove f os s)) ! w) =
              posted (workers s ! w) @ [PositionFen f, GoMovetime t])
       \<and> (optMovetimeMs os = None \<longrightarrow>
            posted (workers (snd (getBestMove f os s)) ! w) =
              posted (workers s ! w) @ [PositionFen f, GoMovetime 500])))
   \<and> (worker s = Some w \<and> w < length (workers s) \<longrightarrow>
        posted (workers (sendSearch sid s) ! w) =
          posted (workers s ! w) @
            [PositionFen (fen (searches s ! sid)), goCommand (opts (searches s ! sid))])"
proof -
  have a: "worker s = Some w \<and> w < length (workers s) \<and> isReady s \<longrightarrow>
      posted (workers (snd (getBestMove f os s)) ! w) =
        posted (workers s ! w) @ [PositionFen f, goCommand os]"
    by (simp add: getBestMove_posted)
  have b: "optDepth os = Some d \<and> d \<noteq> 0 \<longrightarrow> goCommand os = GoDepth d" for d
    by (simp add: goCommand_def)
  have c: "optDepth os = None \<or> optDepth os = Some 0 \<longrightarrow>
      goCommand os = GoMovetime (case optMovetimeMs os of None \<Rightarrow> 500 | Some t \<Rightarrow> t)"
    by (auto simp: goCommand_def)
  have d: "worker s = Some w \<and> w < length (workers s) \<longrightarrow>
        posted (workers (sendSearch sid s) ! w) =
          posted (workers s ! w) @
            [PositionFen (fen (searches s ! sid)), goCommand (opts (searches s ! sid))]"
    by (simp add: sendSearch_posted)
  show ?thesis
    using a b c d by (auto split: option.splits)
qed

theorem getBestMove_search_command_witness:
  "worker readyEngine = Some 0 \<and> 0 < length (workers readyEngine) \<and> isReady readyEngine
   \<and> optDepth (Some \<lparr>movetimeMs = Some 200, depth = Some 12\<rparr>) = Some 12 \<and> (12::nat) \<noteq> 0
   \<and> posted (workers (snd (getBestMove ''startpos'' (Some \<lparr>movetimeMs = Some 200, depth = Some 12\<rparr>)
         readyEngine)) ! 0) =
       posted (workers readyEngine ! 0) @ [PositionFen ''startpos'', GoDepth 12]
   \<and> optDepth None = None \<and> optMovetimeMs None = None
   \<and> posted (workers (snd (getBestMove ''startpos'' None readyEngine)) ! 0) =
       posted (workers readyEngine ! 0) @ [PositionFen ''startpos'', GoMovetime 500]
   \<and> optMovetimeMs (Some \<lparr>movetimeMs = Some 200, depth = None\<rparr>) = Some 200
   \<and> posted (workers (snd (getBestMove ''startpos'' (Some \<lparr>movetimeMs = Some 200, depth = None\<rparr>)
         readyEngine)) ! 0) =
       posted (workers readyEngine ! 0) @ [PositionFen ''startpos'', GoMovetime 200]"
  using getBestMove_search_command [of readyEngine 0 "Some \<lparr>movetimeMs = Some 200, depth = Some 12\<rparr>" "''startpos''" 0]
    getBestMove_search_command [of readyEngine 0 None "''startpos''" 0]
    getBestMove_search_command [of readyEngine 0 "Some \<lparr>movetimeMs = Some 200, depth = None\<rparr>" "''startpos''" 0]
  by (simp add: readyEngine_fields optDepth_def optMovetimeMs_def)


text \<open>
  Claim C5. For every terminating message (a text that starts with \<open>bestmove\<close>) the
  result is read off the whitespace tokens of the message: the move is token 1 (absent
  when there is none); when a token \<open>ponder\<close> is followed by another token, the ponder
  move is the token after the first \<open>ponder\<close>; when no \<open>ponder\<close> token is followed
  by a token, no ponder move is set. Nothing else of the message enters the result.
  This result is what \<open>getBestMove\<close> returns: in every session that is not disposed,
  in any environment, when the message is delivered by the current worker while a
  search is in progress, the promise of that search is fulfilled with the result; a call
  of \<open>getBestMove\<close> on a ready session is such a search. \<open>bestmove e7e8q\<close> gives the
  move \<open>e7e8q\<close> and no ponder move; \<open>bestmove e2e4 ponder e7e5\<close> gives \<open>e2e4\<close> and
  \<open>e7e5\<close>, also for a call that was made before the session was initialized.
\<close>

theorem bestmove_parsing:
  assumes sw: "startsWith text ''bestmove''"
  shows "move (parseBestMove text) =
           (if 1 < length (whitespaceTokens text) then Some (whitespaceTokens text ! 1) else None)
    \<and> (\<forall>pre t post. whitespaceTokens text = pre @ ''ponder'' # t # post \<and> ''ponder'' \<notin> set pre
          \<longrightarrow> ponder (parseBestMove text) = Some t)
    \<and> ((\<nexists>pre t post. whitespaceTokens text = pre @ ''ponder'' # t # post)
          \<longrightarrow> ponder (parseBestMove text) = None)
    \<and> (CallDispose \<notin> set evs \<and> sid < length (searches (run evs (newEngineIn fs hc)))
         \<and> status (searches (run evs (newEngineIn fs hc)) ! sid) = Searching \<longrightarrow>
          (\<exists>w. worker (run evs (newEngineIn fs hc)) = Some w
             \<and> status (searches (step (WorkerMessage w (StringData text))
                   (run evs (newEngineIn fs hc))) ! sid) = Resolved (parseBestMove text)))
    \<and> (CallDispose \<notin> set evs \<and> isReady (run evs (newEngineIn fs hc)) \<longrightarrow>
          (\<exists>w. worker (run evs (newEngineIn fs hc)) = Some w
             \<and> status (searches (run (evs @ [CallGetBestMove f os]) (newEngineIn fs hc))
                   ! length (searches (run evs (newEngineIn fs hc)))) = Searching
             \<and> status (searches (run (evs @ [CallGetBestMove f os,
                     WorkerMessage w (StringData text)]) (newEngineIn fs hc))
                   ! length (searches (run evs (newEngineIn fs hc)))) =
                 Resolved (parseBestMove text)))
    \<and> parseBestMove ''bestmove e7e8q'' = \<lparr>move = Some ''e7e8q'', ponder = None\<rparr>
    \<and> parseBestMove ''bestmove e2e4 ponder e7e5'' = \<lparr>move = Some ''e2e4'', ponder = Some ''e7e5''\<rparr>
    \<and> status (searches (run [CallGetBestMove ''startpos'' None,
                            WorkerMessage 0 (StringData ''uciok''),
                            WorkerMessage 0 (StringData ''readyok''),
                            WorkerMessage 0 (StringData ''bestmove e2e4 ponder e7e5'')]
                           (newEngine None)) ! 0) =
        Resolved \<lparr>move = Some ''e2e4'', ponder = Some ''e7e5''\<rparr>"
proof -
  have parts: "split (trim text) = whitespaceTokens text"
    using startsWith_nonspace [OF sw] by (rule split_trim_tokens)
  have a: "move (parseBestMove text) =
           (if 1 < length (whitespaceTokens text) then Some (whitespaceTokens text ! 1) else None)"
    by (simp only: parseBestMove_move parts elemAt_1)
  have b: "ponder (parseBestMove text) = Some t"
    if "whitespaceTokens text = pre @ ''ponder'' # t # post" "''ponder'' \<notin> set pre" for pre t post
  proof -
    have "t \<in> set (whitespaceTokens text)" using that(1) by simp
    hence t: "t \<noteq> []" by (rule tokens_nonempty)
    from ponder_found [OF that(1) that(2) t] show ?thesis
      unfolding parseBestMove_ponder parts using t by simp
  qed
  have c: "ponder (parseBestMove text) = None"
    if "\<nexists>pre t post. whitespaceTokens text = pre @ ''ponder'' # t # post"
    using that ponder_shape [of "whitespaceTokens text"]
    unfolding parseBestMove_ponder parts by auto
  have d: "\<exists>w. worker (run evs (newEngineIn fs hc)) = Some w
             \<and> status (searches (step (WorkerMessage w (StringData text))
                   (run evs (newEngineIn fs hc))) ! sid) = Resolved (parseBestMove text)"
    if "CallDispose \<notin> set evs" "sid < length (searches (run evs (newEngineIn fs hc)))"
      "status (searches (run evs (newEngineIn fs hc)) ! sid) = Searching"
    using searching_delivered [OF sw session_reached(1,3,4) [OF that(1)] that(2,3)] .
  have e: "\<exists>w. worker (run evs (newEngineIn fs hc)) = Some w
             \<and> status (searches (run (evs @ [CallGetBestMove f os]) (newEngineIn fs hc))
                   ! length (searches (run evs (newEngineIn fs hc)))) = Searching
             \<and> status (searches (run (evs @ [CallGetBestMove f os,
                     WorkerMessage w (StringData text)]) (newEngineIn fs hc))
                   ! length (searches (run evs (newEngineIn fs hc)))) =
                 Resolved (parseBestMove text)"
    if nd: "CallDispose \<notin> set evs" and r: "isReady (run evs (newEngineIn fs hc))"
    using sw nd r by (rule ready_call_delivered)
  have e1: "parseBestMove ''bestmove e7e8q'' = \<lparr>move = Some ''e7e8q'', ponder = None\<rparr>"
    by code_simp
  have e2: "parseBestMove ''bestmove e2e4 ponder e7e5'' = \<lparr>move = Some ''e2e4'', ponder = Some ''e7e5''\<rparr>"
    by code_simp
  have e3: "status (searches (run [CallGetBestMove ''startpos'' None,
                            WorkerMessage 0 (StringData ''uciok''),
                            WorkerMessage 0 (StringData ''readyok''),
                            WorkerMessage 0 (StringData ''bestmove e2e4 ponder e7e5'')]
                           (newEngine None)) ! 0) =
        Resolved \<lparr>move = Some ''e2e4'', ponder = Some ''e7e5''\<rparr>"
    by (simp add: engine_defs e2)
  from a b c d e e1 e2 e3 show ?thesis by blast
qed


theorem bestmove_parsing_witness:
  "startsWith ''bestmove e2e4 ponder e7e5'' ''bestmove''
   \<and> whitespaceTokens ''bestmove e2e4 ponder e7e5'' = [''bestmove'', ''e2e4'', ''ponder'', ''e7e5'']
   \<and> move (parseBestMove ''bestmove e2e4 ponder e7e5'') = Some ''e2e4''
   \<and> ponder (parseBestMove ''bestmove e2e4 ponder e7e5'') = Some ''e7e5''
   \<and> CallDispose \<notin> set [CallGetBestMove ''startpos'' None,
          WorkerMessage 0 (StringData ''uciok''), WorkerMessage 0 (StringData ''readyok'')]
   \<and> worker (run [CallGetBestMove ''startpos'' None,
          WorkerMessage 0 (StringData ''uciok''), WorkerMessage 0 (StringData ''readyok'')]
          (newEngineIn [] None)) = Some 0
   \<and> status (searches (run [CallGetBestMove ''startpos'' None,
          WorkerMessage 0 (StringData ''uciok''), WorkerMessage 0 (StringData ''readyok'')]
          (newEngineIn [] None)) ! 0) = Searching
   \<and> status (searches (step (WorkerMessage 0 (StringData ''bestmove e2e4 ponder e7e5''))
        (run [CallGetBestMove ''startpos'' None,
          WorkerMessage 0 (StringData ''uciok''), WorkerMessage 0 (StringData ''readyok'')]
          (newEngineIn [] None))) ! 0) =
       Resolved \<lparr>move = Some ''e2e4'', ponder = Some ''e7e5''\<rparr>
   \<and> isReady (run [CallInitialize, WorkerMessage 0 (StringData ''uciok''),
          WorkerMessage 0 (StringData ''readyok'')] (newEngineIn [] None))
   \<and> status (searches (run ([CallInitialize, WorkerMessage 0 (StringData ''uciok''),
          WorkerMessage 0 (StringData ''readyok'')] @ [CallGetBestMove ''startpos'' None,
          WorkerMessage 0 (StringData ''bestmove e2e4 ponder e7e5'')]) (newEngineIn [] None)) ! 0) =
       Resolved \<lparr>move = Some ''e2e4'', ponder = Some ''e7e5''\<rparr>"
proof -
  let ?t = "''bestmove e2e4 ponder e7e5''"
  let ?evs = "[CallGetBestMove ''startpos'' None,
          WorkerMessage 0 (StringData ''uciok''), WorkerMessage 0 (StringData ''readyok'')]"
  let ?ini = "[CallInitialize, WorkerMessage 0 (StringData ''uciok''),
          WorkerMessage 0 (StringData ''readyok'')]"
  have sw: "startsWith ?t ''bestmove''"
    by (simp add: startsWith_def)
  have toks: "whitespaceTokens ?t = [''bestmove'', ''e2e4'', ''ponder'', ''e7e5'']"
    by code_simp
  have nd: "CallDispose \<notin> set ?evs" "CallDispose \<notin> set ?ini" by simp_all
  have st: "worker (run ?evs (newEngineIn [] None)) = Some 0"
    "length (searches (run ?evs (newEngineIn [] None))) = 1"
    "status (searches (run ?evs (newEngineIn [] None)) ! 0) = Searching"
    by (simp_all add: engine_defs)
  have ri: "isReady (run ?ini (newEngineIn [] None))"
    "worker (run ?ini (newEngineIn [] None)) = Some 0"
    "searches (run ?ini (newEngineIn [] None)) = []"
    by (simp_all add: engine_defs)
  note th = bestmove_parsing [OF sw, of ?evs 0 "[]" None "''startpos''" None]
  note ti = bestmove_parsing [OF sw, of ?ini 0 "[]" None "''startpos''" None]
  from th have m: "move (parseBestMove ?t) = Some ''e2e4''"
    by (simp add: toks)
  from th have "\<forall>pre t post. whitespaceTokens ?t = pre @ ''ponder'' # t # post
       \<and> ''ponder'' \<notin> set pre \<longrightarrow> ponder (parseBestMove ?t) = Some t"
    by blast
  from this [rule_format, of "[''bestmove'', ''e2e4'']" "''e7e5''" "[]"]
  have p: "ponder (parseBestMove ?t) = Some ''e7e5''"
    by (simp add: toks)
  from m p have v: "parseBestMove ?t = \<lparr>move = Some ''e2e4'', ponder = Some ''e7e5''\<rparr>"
    by (cases "parseBestMove ?t") simp
  from th nd(1) st have "\<exists>w. worker (run ?evs (newEngineIn [] None)) = Some w
             \<and> status (searches (step (WorkerMessage w (StringData ?t))
                   (run ?evs (newEngineIn [] None))) ! 0) = Resolved (parseBestMove ?t)"
    by simp
  hence r: "status (searches (step (WorkerMessage 0 (StringData ?t))
                   (run ?evs (newEngineIn [] None))) ! 0) = Resolved (parseBestMove ?t)"
    unfolding st(1) by simp
  from ti nd(2) ri(1) have "\<exists>w. worker (run ?ini (newEngineIn [] None)) = Some w
             \<and> status (searches (run (?ini @ [CallGetBestMove ''startpos'' None]) (newEngineIn [] None))
                   ! length (searches (run ?ini (newEngineIn [] None)))) = Searching
             \<and> status (searches (run (?ini @ [CallGetBestMove ''startpos'' None,
                     WorkerMessage w (StringData ?t)]) (newEngineIn [] None))
                   ! length (searches (run ?ini (newEngineIn [] None)))) =
                 Resolved (parseBestMove ?t)"
    by blast
  hence q: "status (searches (run (?ini @ [CallGetBestMove ''startpos'' None,
                     WorkerMessage 0 (StringData ?t)]) (newEngineIn [] None)) ! 0) =
                 Resolved (parseBestMove ?t)"
    unfolding ri(2) ri(3) by simp
  from sw toks m p nd st r ri q show ?thesis unfolding v by simp
qed


text \<open>
  Claim C8, as stated, fails: a terminating message without a move token does not make
  \<open>getBestMove\<close> fail. The listener stores \<open>parts[1]\<close> unchecked and resolves, so
  the call succeeds with a result whose move is \<open>undefined\<close>.
\<close>

theorem bestmove_without_move_resolves:
  "status (searches (run [CallGetBestMove ''startpos'' None,
                          WorkerMessage 0 (StringData ''uciok''),
                          WorkerMessage 0 (StringData ''readyok''),
                          WorkerMessage 0 (StringData ''bestmove'')] (newEngine None)) ! 0) =
     Resolved \<lparr>move = None, ponder = None\<rparr>"
proof -
  have p: "parseBestMove ''bestmove'' = \<lparr>move = None, ponder = None\<rparr>" by code_simp
  show ?thesis by (simp add: engine_defs p)
qed


text \<open>
  Claim C8, amended. A call of \<open>getBestMove\<close> on a session without a worker first
  awaits \<open>initialize\<close>. Without a pending initialization (never initialized, or
  disposed) a launch is attempted: when the constructor of the primary worker throws,
  the call is rejected with that exception; otherwise a worker is launched and the call
  waits for its readiness. With a promise in \<open>pendingInit\<close> the call is rejected with
  the promise's exception when the promise is rejected, and stays suspended while the
  promise is pending; the \<open>Error('Stockfish worker failed to initialize')\<close> of the
  second line is thrown only when \<open>resolve\<close> has been called on the promise and there
  is still no worker. In a session that is not disposed, in any environment, that does
  not happen: no call is rejected with anything but the exception of the primary
  worker's constructor. A terminating message without a move token, delivered while the
  search is in progress, fulfils the promise of the call with no move and no ponder
  move.
\<close>

theorem getBestMove_failures:
  "(worker s = None \<and> pendingInit s = None \<and> constructorThrows primaryUrl s \<longrightarrow>
      status (searches (snd (getBestMove f os s)) ! length (searches s)) =
        Rejected ConstructorError
    \<and> worker (snd (getBestMove f os s)) = None)
   \<and> (worker s = None \<and> pendingInit s = None \<and> \<not> constructorThrows primaryUrl s \<longrightarrow>
        status (searches (snd (getBestMove f os s)) ! length (searches s)) = Suspended
      \<and> worker (snd (getBestMove f os s)) = Some (length (workers s)))
   \<and> (worker s = None \<and> pendingInit s = Some p \<longrightarrow>
        status (searches (snd (getBestMove f os s)) ! length (searches s)) =
          (case rejected (initPromises s ! p) of
             Some e \<Rightarrow> Rejected e
           | None \<Rightarrow>
               if 0 < resolveCalls (initPromises s ! p)
               then Rejected (Error ''Stockfish worker failed to initialize'')
               else Suspended))
   \<and> (CallDispose \<notin> set evs \<longrightarrow>
        (\<forall>q \<in> set (searches (run evs (newEngineIn fs hc))). \<forall>e. status q = Rejected e \<longrightarrow>
           e = ConstructorError \<and> primaryUrl \<in> set fs))
   \<and> (startsWith text ''bestmove'' \<and> length (whitespaceTokens text) \<le> 1
        \<and> CallDispose \<notin> set evs \<and> sid < length (searches (run evs (newEngineIn fs hc)))
        \<and> status (searches (run evs (newEngineIn fs hc)) ! sid) = Searching \<longrightarrow>
        (\<exists>w. worker (run evs (newEngineIn fs hc)) = Some w
           \<and> status (searches (step (WorkerMessage w (StringData text))
                 (run evs (newEngineIn fs hc))) ! sid) = Resolved \<lparr>move = None, ponder = None\<rparr>))"
proof -
  have a: "worker s = None \<and> pendingInit s = None \<and> constructorThrows primaryUrl s \<longrightarrow>
      status (searches (snd (getBestMove f os s)) ! length (searches s)) =
        Rejected ConstructorError
    \<and> worker (snd (getBestMove f os s)) = None"
    using getBestMove_absent_throws [of s f os] by blast
  have b: "worker s = None \<and> pendingInit s = None \<and> \<not> constructorThrows primaryUrl s \<longrightarrow>
        status (searches (snd (getBestMove f os s)) ! length (searches s)) = Suspended
      \<and> worker (snd (getBestMove f os s)) = Some (length (workers s))"
    using getBestMove_absent [of s f os] by blast
  have p: "worker s = None \<and> pendingInit s = Some p \<longrightarrow>
        status (searches (snd (getBestMove f os s)) ! length (searches s)) =
          (case rejected (initPromises s ! p) of
             Some e \<Rightarrow> Rejected e
           | None \<Rightarrow>
               if 0 < resolveCalls (initPromises s ! p)
               then Rejected (Error ''Stockfish worker failed to initialize'')
               else Suspended)"
    using getBestMove_waiting [of s p f os] by blast
  have c: "\<forall>q \<in> set (searches (run evs (newEngineIn fs hc))). \<forall>e. status q = Rejected e \<longrightarrow>
           e = ConstructorError \<and> primaryUrl \<in> set fs"
    if "CallDispose \<notin> set evs"
    using session_reached(5) [OF that, of fs hc]
    unfolding failuresOk_def constructorThrows_def by simp
  have d: "\<exists>w. worker (run evs (newEngineIn fs hc)) = Some w
           \<and> status (searches (step (WorkerMessage w (StringData text))
                 (run evs (newEngineIn fs hc))) ! sid) = Resolved \<lparr>move = None, ponder = None\<rparr>"
    if sw: "startsWith text ''bestmove''" and one: "length (whitespaceTokens text) \<le> 1"
      and nd: "CallDispose \<notin> set evs"
      and sid: "sid < length (searches (run evs (newEngineIn fs hc)))"
      and se: "status (searches (run evs (newEngineIn fs hc)) ! sid) = Searching"
    using searching_delivered [OF sw session_reached(1,3,4) [OF nd] sid se]
    unfolding no_move_token [OF sw one] .
  from a b p c d show ?thesis by blast
qed

theorem getBestMove_failures_witness:
  "worker (newEngineIn [primaryUrl] None) = None \<and> pendingInit (newEngineIn [primaryUrl] None) = None
   \<and> constructorThrows primaryUrl (newEngineIn [primaryUrl] None)
   \<and> status (searches (snd (getBestMove ''startpos'' None (newEngineIn [primaryUrl] None))) ! 0) =
       Rejected ConstructorError
   \<and> worker (run [CallInitialize, CallDispose] (newEngine None)) = None
   \<and> pendingInit (run [CallInitialize, CallDispose] (newEngine None)) = None
   \<and> \<not> constructorThrows primaryUrl (run [CallInitialize, CallDispose] (newEngine None))
   \<and> status (searches (snd (getBestMove ''startpos'' None
         (run [CallInitialize, CallDispose] (newEngine None)))) ! 0) = Suspended
   \<and> worker (snd (getBestMove ''startpos'' None
         (run [CallInitialize, CallDispose] (newEngine None)))) = Some 1
   \<and> worker (run [CallInitialize] (newEngineIn [primaryUrl] None)) = None
   \<and> pendingInit (run [CallInitialize] (newEngineIn [primaryUrl] None)) = Some 0
   \<and> status (searches (snd (getBestMove ''startpos'' None
         (run [CallInitialize] (newEngineIn [primaryUrl] None)))) ! 0) = Rejected ConstructorError
   \<and> worker (run [CallInitialize, TimerFires 0] (newEngineIn [fallbackUrl] None)) = None
   \<and> pendingInit (run [CallInitialize, TimerFires 0] (newEngineIn [fallbackUrl] None)) = Some 0
   \<and> status (searches (snd (getBestMove ''startpos'' None
         (run [CallInitialize, TimerFires 0] (newEngineIn [fallbackUrl] None)))) ! 0) = Suspended
   \<and> CallDispose \<notin> set [CallGetBestMove ''startpos'' None]
   \<and> searches (run [CallGetBestMove ''startpos'' None] (newEngineIn [primaryUrl] None)) =
       [\<lparr>fen = ''startpos'', opts = None, status = Rejected ConstructorError\<rparr>]
   \<and> primaryUrl \<in> set [primaryUrl]
   \<and> startsWith ''bestmove'' ''bestmove'' \<and> length (whitespaceTokens ''bestmove'') \<le> 1
   \<and> CallDispose \<notin> set [CallGetBestMove ''startpos'' None,
          WorkerMessage 0 (StringData ''uciok''), WorkerMessage 0 (StringData ''readyok'')]
   \<and> status (searches (run [CallGetBestMove ''startpos'' None,
          WorkerMessage 0 (StringData ''uciok''), WorkerMessage 0 (StringData ''readyok'')]
          (newEngineIn [] None)) ! 0) = Searching
   \<and> status (searches (step (WorkerMessage 0 (StringData ''bestmove''))
        (run [CallGetBestMove ''startpos'' None,
          WorkerMessage 0 (StringData ''uciok''), WorkerMessage 0 (StringData ''readyok'')]
          (newEngineIn [] None))) ! 0) = Resolved \<lparr>move = None, ponder = None\<rparr>"
proof -
  let ?evs = "[CallGetBestMove ''startpos'' None,
          WorkerMessage 0 (StringData ''uciok''), WorkerMessage 0 (StringData ''readyok'')]"
  let ?d = "run [CallInitialize, CallDispose] (newEngine None)"
  let ?i = "run [CallInitialize] (newEngineIn [primaryUrl] None)"
  let ?j = "run [CallInitialize, TimerFires 0] (newEngineIn [fallbackUrl] None)"
  have i: "worker ?i = None" "pendingInit ?i = Some 0" "searches ?i = []"
    "initPromises ?i = [\<lparr>resolveCalls = 0, rejected = Some ConstructorError, reactions = []\<rparr>]"
    by (simp_all add: engine_defs)
  have j: "worker ?j = None" "pendingInit ?j = Some 0" "searches ?j = []"
    "initPromises ?j = [\<lparr>resolveCalls = 0, rejected = None, reactions = []\<rparr>]"
    by (simp_all add: engine_defs)
  have t: "length (whitespaceTokens ''bestmove'') \<le> 1" by code_simp
  have sw: "startsWith ''bestmove'' ''bestmove''" by (simp add: startsWith_def)
  have n: "worker (newEngineIn [primaryUrl] None) = None"
    "pendingInit (newEngineIn [primaryUrl] None) = None"
    "constructorThrows primaryUrl (newEngineIn [primaryUrl] None)"
    "searches (newEngineIn [primaryUrl] None) = []"
    by (simp_all add: newEngineIn_def newEngine_def constructorThrows_def)
  have e: "searches ?d = []" "worker ?d = None" "pendingInit ?d = None"
    "\<not> constructorThrows primaryUrl ?d" "length (workers ?d) = 1"
    by (simp_all add: engine_defs)
  have st: "worker (run ?evs (newEngineIn [] None)) = Some 0"
    "length (searches (run ?evs (newEngineIn [] None))) = 1"
    "status (searches (run ?evs (newEngineIn [] None)) ! 0) = Searching"
    by (simp_all add: engine_defs)
  have nd: "CallDispose \<notin> set ?evs" "CallDispose \<notin> set [CallGetBestMove ''startpos'' None]"
    by simp_all
  have q: "searches (run [CallGetBestMove ''startpos'' None] (newEngineIn [primaryUrl] None)) =
       [\<lparr>fen = ''startpos'', opts = None, status = Rejected ConstructorError\<rparr>]"
    by (simp add: engine_defs)
  note t1 = getBestMove_failures [of "newEngineIn [primaryUrl] None" "''startpos''" None 0
      "[CallGetBestMove ''startpos'' None]" "[primaryUrl]" None "''bestmove''" 0]
  note t2 = getBestMove_failures [of ?d "''startpos''" None 0 ?evs "[]" None "''bestmove''" 0]
  note t3 = getBestMove_failures [of ?i "''startpos''" None 0 "[]" "[]" None "''bestmove''" 0]
  note t4 = getBestMove_failures [of ?j "''startpos''" None 0 "[]" "[]" None "''bestmove''" 0]
  from t3 i have r5: "status (searches (snd (getBestMove ''startpos'' None ?i)) ! 0) =
      Rejected ConstructorError"
    by simp
  from t4 j have r6: "status (searches (snd (getBestMove ''startpos'' None ?j)) ! 0) = Suspended"
    by simp
  from t1 n have r1: "status (searches (snd (getBestMove ''startpos'' None
      (newEngineIn [primaryUrl] None))) ! 0) = Rejected ConstructorError"
    by simp
  from t1 nd(2) have "\<forall>q \<in> set (searches (run [CallGetBestMove ''startpos'' None]
        (newEngineIn [primaryUrl] None))). \<forall>e. status q = Rejected e \<longrightarrow>
           e = ConstructorError \<and> primaryUrl \<in> set [primaryUrl]"
    by blast
  hence r3: "primaryUrl \<in> set [primaryUrl]" unfolding q by simp
  from t2 e have r2: "status (searches (snd (getBestMove ''startpos'' None ?d)) ! 0) = Suspended"
    "worker (snd (getBestMove ''startpos'' None ?d)) = Some 1"
    by simp_all
  from t2 sw t nd(1) st have "\<exists>w. worker (run ?evs (newEngineIn [] None)) = Some w
           \<and> status (searches (step (WorkerMessage w (StringData ''bestmove''))
                 (run ?evs (newEngineIn [] None))) ! 0) = Resolved \<lparr>move = None, ponder = None\<rparr>"
    by simp
  hence r4: "status (searches (step (WorkerMessage 0 (StringData ''bestmove''))
                 (run ?evs (newEngineIn [] None))) ! 0) = Resolved \<lparr>move = None, ponder = None\<rparr>"
    unfolding st(1) by simp
  from n e st nd q r1 r2 r3 r4 r5 r6 i(1,2) j(1,2) sw t show ?thesis by simp
qed


text \<open>
  Claim C2 does not hold of the code. When the primary worker raises an error before
  its timer has run out, \<open>handleError\<close> launches the single-threaded worker but leaves
  the primary's timer pending (only the \<open>readyok\<close> branch calls \<open>clearTimeout\<close>). The
  timer's callback tests the \<open>singleThreaded\<close> parameter of its own launch, which is
  false, so when it fires before the fallback worker is ready it terminates that worker
  and launches the single-threaded script a second time.
\<close>

theorem stale_timer_relaunches_fallback:
  "worker (run [CallInitialize, WorkerError 0] (newEngine None)) = Some 1
   \<and> usingSingleThreaded (run [CallInitialize, WorkerError 0] (newEngine None))
   \<and> \<not> isReady (run [CallInitialize, WorkerError 0] (newEngine None))
   \<and> \<not> terminated (workers (run [CallInitialize, WorkerError 0] (newEngine None)) ! 1)
   \<and> timeoutPending (workers (run [CallInitialize, WorkerError 0] (newEngine None)) ! 0)
   \<and> worker (step (TimerFires 0) (run [CallInitialize, WorkerError 0] (newEngine None))) = Some 2
   \<and> terminated (workers (step (TimerFires 0) (run [CallInitialize, WorkerError 0] (newEngine None))) ! 1)
   \<and> scriptUrl (workers (step (TimerFires 0) (run [CallInitialize, WorkerError 0] (newEngine None))) ! 2)
        = fallbackUrl
   \<and> length (workers (step (TimerFires 0) (run [CallInitialize, WorkerError 0] (newEngine None)))) = 3"
  by (simp add: usingSingleThreaded_def engine_defs)


text \<open>
  Claim C3 does not hold of the code, by the same stale timer: an error of the primary
  worker triggers the fallback launch, and the primary's timer then triggers another.
\<close>

theorem two_fallback_launches:
  "map scriptUrl (workers (run [CallInitialize, WorkerError 0] (newEngine None))) =
     [primaryUrl, fallbackUrl]
   \<and> map terminated (workers (run [CallInitialize, WorkerError 0] (newEngine None))) = [True, False]
   \<and> map scriptUrl (workers (run [CallInitialize, WorkerError 0, TimerFires 0] (newEngine None))) =
     [primaryUrl, fallbackUrl, fallbackUrl]
   \<and> length (filter singleThreaded
        (workers (run [CallInitialize, WorkerError 0, TimerFires 0] (newEngine None)))) = 2"
  by (simp add: engine_defs)


text \<open>
  Claim C4, as stated, fails: when both variants fail to reach readiness, the promise of
  \<open>initialize\<close> is not rejected; it stays pending. When the primary worker times out
  and the fallback worker fails as well, the session is not ready, \<open>resolve\<close> has not
  been called, the promise is not rejected, and a call of \<open>getBestMove\<close> that waits for
  the initialization is still suspended: it has received no error.
\<close>

theorem initialize_pending_when_both_fail:
  "\<not> isReady (run [CallGetBestMove ''startpos'' None, TimerFires 0, WorkerError 1, TimerFires 1]
       (newEngine None))
   \<and> map scriptUrl (workers (run [CallGetBestMove ''startpos'' None, TimerFires 0, WorkerError 1,
       TimerFires 1] (newEngine None))) = [primaryUrl, fallbackUrl]
   \<and> resolveCalls (initPromises (run [CallGetBestMove ''startpos'' None, TimerFires 0,
       WorkerError 1, TimerFires 1] (newEngine None)) ! 0) = 0
   \<and> rejected (initPromises (run [CallGetBestMove ''startpos'' None, TimerFires 0,
       WorkerError 1, TimerFires 1] (newEngine None)) ! 0) = None
   \<and> status (searches (run [CallGetBestMove ''startpos'' None, TimerFires 0, WorkerError 1,
       TimerFires 1] (newEngine None)) ! 0) = Suspended"
  by (simp add: engine_defs)


text \<open>
  Claim C4, amended. In every environment: in a session that is not disposed,
  \<open>resolve\<close> is called at most once on any promise of \<open>initialize\<close>, and it is called
  only when a worker reports \<open>readyok\<close>; in every execution in which no message
  contains \<open>readyok\<close> the session never becomes ready and \<open>resolve\<close> is called on no
  promise. A promise of \<open>initialize\<close> is rejected exactly when the constructor of the
  primary worker throws, with the exception of the constructor; then no worker is ever
  launched and \<open>resolve\<close> is never called. In every other execution in which no
  variant reaches readiness (timers, error events, a fallback worker whose constructor
  throws) the promise is neither fulfilled nor rejected: it stays pending. After a
  completed handshake the promise has been resolved once and is not rejected.
\<close>

theorem initialize_resolution:
  "(CallDispose \<notin> set evs \<longrightarrow>
      (\<forall>p \<in> set (initPromises (run evs (newEngineIn fs hc))). resolveCalls p \<le> 1))
   \<and> ((\<forall>w t. WorkerMessage w (StringData t) \<in> set evs \<longrightarrow> \<not> includes_str t ''readyok'') \<longrightarrow>
        \<not> isReady (run evs (newEngineIn fs hc))
      \<and> (\<forall>p \<in> set (initPromises (run evs (newEngineIn fs hc))). resolveCalls p = 0))
   \<and> (\<forall>p \<in> set (initPromises (run evs (newEngineIn fs hc))).
        rejected p = (if primaryUrl \<in> set fs then Some ConstructorError else None))
   \<and> (primaryUrl \<in> set fs \<longrightarrow>
        workers (run evs (newEngineIn fs hc)) = []
      \<and> \<not> isReady (run evs (newEngineIn fs hc))
      \<and> (\<forall>p \<in> set (initPromises (run evs (newEngineIn fs hc))). resolveCalls p = 0))
   \<and> resolveCalls (initPromises readyEngine ! 0) = 1
   \<and> rejected (initPromises readyEngine ! 0) = None"
proof -
  have a: "\<forall>p \<in> set (initPromises (run evs (newEngineIn fs hc))). resolveCalls p \<le> 1"
    if "CallDispose \<notin> set evs"
  proof -
    from session_reached(1) [OF that]
    have "countsOk (run evs (newEngineIn fs hc))" by (rule sessionInvD)
    thus ?thesis by (simp add: countsOk_def resolveCounts_def)
  qed
  have b: "\<not> isReady (run evs (newEngineIn fs hc))
      \<and> (\<forall>p \<in> set (initPromises (run evs (newEngineIn fs hc))). resolveCalls p = 0)"
    if "\<forall>w t. WorkerMessage w (StringData t) \<in> set evs \<longrightarrow> \<not> includes_str t ''readyok''"
  proof -
    have "\<not> includes_str t ''readyok''"
      if "WorkerMessage w (StringData t) \<in> set evs" for w t
      using that \<open>\<forall>w t. WorkerMessage w (StringData t) \<in> set evs \<longrightarrow> \<not> includes_str t ''readyok''\<close>
      by blast
    with pendingSession_newEngineIn have "pendingSession (run evs (newEngineIn fs hc))"
      by (rule pendingSession_run)
    thus ?thesis by (simp add: pendingSession_def resolveCounts_def)
  qed
  have c: "\<forall>p \<in> set (initPromises (run evs (newEngineIn fs hc))).
        rejected p = (if primaryUrl \<in> set fs then Some ConstructorError else None)"
    using promisesOk_run [OF session_newEngineIn(2), of evs fs hc]
    by (simp add: promisesOk_def rejections_def rejection_def constructorThrows_def)
  have d: "workers (run evs (newEngineIn fs hc)) = []
      \<and> \<not> isReady (run evs (newEngineIn fs hc))
      \<and> (\<forall>p \<in> set (initPromises (run evs (newEngineIn fs hc))). resolveCalls p = 0)"
    if "primaryUrl \<in> set fs"
  proof -
    have "constructorThrows primaryUrl (newEngineIn fs hc)" "workers (newEngineIn fs hc) = []"
      "worker (newEngineIn fs hc) = None"
      using that by (simp_all add: constructorThrows_def newEngineIn_def newEngine_def)
    from unlaunched_run [OF this pendingSession_newEngineIn, of evs]
    show ?thesis by (simp add: pendingSession_def resolveCounts_def)
  qed
  have e: "resolveCalls (initPromises readyEngine ! 0) = 1"
    "rejected (initPromises readyEngine ! 0) = None"
    by (simp_all add: readyEngine_def engine_defs)
  from a b c d e show ?thesis by blast
qed

theorem initialize_resolution_witness:
  "CallDispose \<notin> set [CallInitialize, WorkerMessage 0 (StringData ''uciok''), TimerFires 0,
       WorkerError 1, TimerFires 1]
   \<and> \<not> includes_str ''uciok'' ''readyok''
   \<and> \<not> isReady (run [CallInitialize, WorkerMessage 0 (StringData ''uciok''), TimerFires 0,
       WorkerError 1, TimerFires 1] (newEngineIn [fallbackUrl] None))
   \<and> initPromises (run [CallInitialize, WorkerMessage 0 (StringData ''uciok''), TimerFires 0,
       WorkerError 1, TimerFires 1] (newEngineIn [fallbackUrl] None)) =
         [\<lparr>resolveCalls = 0, rejected = None, reactions = []\<rparr>]
   \<and> worker (run [CallInitialize, WorkerMessage 0 (StringData ''uciok''), TimerFires 0,
       WorkerError 1, TimerFires 1] (newEngineIn [fallbackUrl] None)) = None
   \<and> CallDispose \<notin> set [CallInitialize, WorkerMessage 0 (StringData ''uciok''),
          WorkerMessage 0 (StringData ''readyok'')]
   \<and> initPromises (run [CallInitialize, WorkerMessage 0 (StringData ''uciok''),
          WorkerMessage 0 (StringData ''readyok'')] (newEngineIn [] None)) =
         [\<lparr>resolveCalls = 1, rejected = None, reactions = []\<rparr>]
   \<and> primaryUrl \<in> set [primaryUrl]
   \<and> workers (run [CallInitialize, TimerFires 0] (newEngineIn [primaryUrl] None)) = []
   \<and> initPromises (run [CallInitialize, TimerFires 0] (newEngineIn [primaryUrl] None)) =
         [\<lparr>resolveCalls = 0, rejected = Some ConstructorError, reactions = []\<rparr>]"
proof -
  let ?f = "[CallInitialize, WorkerMessage 0 (StringData ''uciok''), TimerFires 0,
       WorkerError 1, TimerFires 1]"
  let ?r = "[CallInitialize, WorkerMessage 0 (StringData ''uciok''),
          WorkerMessage 0 (StringData ''readyok'')]"
  have n: "\<not> includes_str ''uciok'' ''readyok''"
    by (simp add: includes_str_def sublist_code prefix_code)
  have p: "initPromises (run ?f (newEngineIn [fallbackUrl] None)) =
         [\<lparr>resolveCalls = 0, rejected = None, reactions = []\<rparr>]"
    "worker (run ?f (newEngineIn [fallbackUrl] None)) = None"
    by (simp_all add: engine_defs)
  have pr: "initPromises (run ?r (newEngineIn [] None)) =
         [\<lparr>resolveCalls = 1, rejected = None, reactions = []\<rparr>]"
    by (simp add: engine_defs)
  have pt: "initPromises (run [CallInitialize, TimerFires 0] (newEngineIn [primaryUrl] None)) =
         [\<lparr>resolveCalls = 0, rejected = Some ConstructorError, reactions = []\<rparr>]"
    by (simp add: engine_defs)
  have h: "\<forall>w t. WorkerMessage w (StringData t) \<in> set ?f \<longrightarrow> \<not> includes_str t ''readyok''"
    using n by auto
  have d: "CallDispose \<notin> set ?r" "CallDispose \<notin> set ?f" by simp_all
  from initialize_resolution [of ?f "[fallbackUrl]" None] h
  have r: "\<not> isReady (run ?f (newEngineIn [fallbackUrl] None))" by blast
  from initialize_resolution [of ?r "[]" None] d(1)
  have "\<forall>p \<in> set (initPromises (run ?r (newEngineIn [] None))). resolveCalls p \<le> 1"
    by blast
  from initialize_resolution [of "[CallInitialize, TimerFires 0]" "[primaryUrl]" None]
  have w: "workers (run [CallInitialize, TimerFires 0] (newEngineIn [primaryUrl] None)) = []"
    by simp
  from n p pr pt r w d show ?thesis by simp
qed

end
